theory Spec2Isabelle
  imports Main
begin

section \<open>The message loop: data model\<close>

text \<open>
  The engine is the \<^verbatim>\<open>MessageLoop\<close> namespace: a queue of posted messages, a
  table of hook arrays keyed by handler, a set of hook arrays awaiting compaction, the
  exception handler, the handle of the scheduled loop task and the flush guard.

  Handlers, hooks and exception handlers are objects of the caller, compared by
  identity only; they are represented by their identity, and what they do when the
  engine calls them is looked up in a table of user code (\<open>usercode\<close> below).
\<close>

type_synonym handler = nat

text \<open>A message hook is either a function or an object with a \<^verbatim>\<open>messageHook\<close> method.\<close>

datatype hook = HookFunction nat | HookObject nat

text \<open>
  A message is an object too, and one message object may be posted several times
  and be queued more than once: a value of type \<open>msg\<close> is a reference to a message
  object. The state of a message object is its \<^verbatim>\<open>type\<close>, the value of its
  \<^verbatim>\<open>isConflatable\<close> getter and the state a subclass carries (which \<^verbatim>\<open>conflate\<close>
  merges).
\<close>

type_synonym msg = nat

record message =
  mtype :: string
  isConflatable :: bool
  payload :: nat

text \<open>
  Values that are thrown: an error of user code, or the \<^verbatim>\<open>TypeError\<close> of the
  runtime when a field of \<^verbatim>\<open>undefined\<close> is read.
\<close>

datatype error = UserError nat | TypeError

text \<open>
  The exception handler is a function value; the default one is \<^verbatim>\<open>console.error\<close>.
\<close>

datatype exnhandler = ConsoleError | CustomHandler nat

text \<open>
  \<^verbatim>\<open>PostedMessage\<close>: both fields are nullable. Entries are objects: the loop compares
  an entry with its sentinel by reference, so every entry carries the reference
  \<open>ref\<close> it was allocated at.
\<close>

record posted =
  ref :: nat
  handler :: "handler option"
  msg :: "msg option"

text \<open>
  The platform's microtask queue, as far as \<^verbatim>\<open>schedule\<close> uses it: a scheduled
  function, and the \<^verbatim>\<open>rejected\<close> flag its cancel function sets.
\<close>

datatype job = RunMessageLoop | CleanupDirtySet

record task =
  tid :: nat
  job :: job
  rejected :: bool

text \<open>What is observable of a run: the calls the engine makes into user code.\<close>

datatype event =
    HookCalled hook handler msg
  | ProcessMessage handler msg
  | ExceptionHandled exnhandler error
  | Dequeued posted

text \<open>
  The module state. \<open>pending\<close> holds the cancel function of the scheduled loop task,
  represented by the id of that task. The hook array of a handler is created once and
  then only mutated in place, so the dirty set of arrays is a set of handlers.
  \<open>nextRef\<close> and \<open>nextTask\<close> allocate fresh references; \<open>messages\<close> is the state of
  the message objects of the program, by reference; \<open>log\<close> records the calls into
  user code in the order they are made.
\<close>

record state =
  pending :: "nat option"
  messageQueue :: "posted list"
  messageHooks :: "handler \<Rightarrow> hook option list option"
  dirtySet :: "handler list"
  exceptionHandler :: exnhandler
  flushGuard :: bool
  microtasks :: "task list"
  nextRef :: nat
  nextTask :: nat
  messages :: "msg \<Rightarrow> message"
  log :: "event list"

text \<open>The state of the module when it is loaded, with the message objects \<open>ms\<close>.\<close>

definition initial :: "(msg \<Rightarrow> message) \<Rightarrow> state" where
  "initial ms = \<lparr>pending = None, messageQueue = [], messageHooks = (\<lambda>_. None), dirtySet = [],
     exceptionHandler = ConsoleError, flushGuard = False, microtasks = [],
     nextRef = 0, nextTask = 0, messages = ms, log = []\<rparr>"

subsection \<open>User code\<close>

text \<open>
  Code of the caller runs inside the engine (hooks, handlers, the exception handler)
  and may call back into the engine before it returns or throws. Such a piece of code
  is the sequence of engine calls it makes and the way it ends. An exception that
  reaches it from an engine call is not caught by it.
\<close>

datatype call =
    Send handler msg
  | Post handler msg
  | Install handler hook
  | Remove handler hook
  | Clear handler
  | Flush
  | SetExceptionHandler exnhandler

datatype ending = Returns bool | Throws error

record body =
  calls :: "call list"
  ending :: ending

text \<open>
  The user code of a system: \<open>processMessage\<close> of every handler, the hook functions
  and \<open>messageHook\<close> methods, each given the handler, the message object and the state
  that object is in when the call is made; the custom exception handlers; and the
  \<open>conflate\<close> method of the message objects. \<open>conflate P this other ms\<close> is the call
  \<^verbatim>\<open>this.conflate(other)\<close> when the message objects are in the state \<open>ms\<close>: it returns
  an answer or throws, and leaves the message objects in a new state (it merges, and
  \<open>this\<close> and \<open>other\<close> may be one object). It makes no engine call.
\<close>

record usercode =
  processMessage :: "handler \<Rightarrow> msg \<Rightarrow> message \<Rightarrow> body"
  hookFunction :: "nat \<Rightarrow> handler \<Rightarrow> msg \<Rightarrow> message \<Rightarrow> body"
  messageHook :: "nat \<Rightarrow> handler \<Rightarrow> msg \<Rightarrow> message \<Rightarrow> body"
  handleException :: "nat \<Rightarrow> error \<Rightarrow> body"
  conflate :: "msg \<Rightarrow> msg \<Rightarrow> (msg \<Rightarrow> message) \<Rightarrow> ending \<times> (msg \<Rightarrow> message)"

definition logEvent :: "event \<Rightarrow> state \<Rightarrow> state" where
  "logEvent ev s = s\<lparr>log := log s @ [ev]\<rparr>"

section \<open>Scheduling and the queue\<close>

text \<open>
  \<^verbatim>\<open>schedule(fn)\<close>: the function is queued as a microtask; the cancel function
  returned sets the task's \<^verbatim>\<open>rejected\<close> flag.
\<close>

definition schedule :: "job \<Rightarrow> state \<Rightarrow> nat \<times> state" where
  "schedule j s =
     (nextTask s,
      s\<lparr>microtasks := microtasks s @ [\<lparr>tid = nextTask s, job = j, rejected = False\<rparr>],
        nextTask := Suc (nextTask s)\<rparr>)"

definition cancel :: "nat \<Rightarrow> state \<Rightarrow> state" where
  "cancel t s =
     s\<lparr>microtasks := map (\<lambda>k. if tid k = t then k\<lparr>rejected := True\<rparr> else k) (microtasks s)\<rparr>"

text \<open>\<^verbatim>\<open>messageQueue.addLast({ handler, msg })\<close> with a newly allocated entry.\<close>

definition addLast :: "handler option \<Rightarrow> msg option \<Rightarrow> state \<Rightarrow> state" where
  "addLast h m s =
     s\<lparr>messageQueue := messageQueue s @ [\<lparr>ref = nextRef s, handler = h, msg = m\<rparr>],
       nextRef := Suc (nextRef s)\<rparr>"

definition enqueueMessage :: "handler \<Rightarrow> msg \<Rightarrow> state \<Rightarrow> state" where
  "enqueueMessage h m s =
     (let s1 = addLast (Some h) (Some m) s in
      if pending s1 \<noteq> None then s1
      else (case schedule RunMessageLoop s1 of (t, s2) \<Rightarrow> s2\<lparr>pending := Some t\<rparr>))"

text \<open>
  The scan of \<^verbatim>\<open>postMessage\<close>: \<^verbatim>\<open>some(messageQueue, posted => ...)\<close> visits the
  entries from the front and stops at the first one for which the callback returns
  true; an exception of \<^verbatim>\<open>conflate\<close> ends it. The type and the conflatable flag of
  the messages are read when an entry is visited. The scan leaves the queue as it is;
  what it yields is its answer and the state \<^verbatim>\<open>conflate\<close> left the message objects
  in.
\<close>

fun someConflate ::
  "usercode \<Rightarrow> handler \<Rightarrow> msg \<Rightarrow> posted list \<Rightarrow> (msg \<Rightarrow> message) \<Rightarrow> ending \<times> (msg \<Rightarrow> message)" where
  "someConflate P h m [] ms = (Returns False, ms)"
| "someConflate P h m (p # ps) ms =
     (if handler p \<noteq> Some h then someConflate P h m ps ms
      else (case msg p of
          None \<Rightarrow> someConflate P h m ps ms
        | Some pm \<Rightarrow>
            if mtype (ms pm) \<noteq> mtype (ms m) then someConflate P h m ps ms
            else if \<not> isConflatable (ms pm) then someConflate P h m ps ms
            else (case conflate P pm m ms of
                (Returns conflated, ms') \<Rightarrow>
                  if conflated then (Returns True, ms') else someConflate P h m ps ms'
              | (Throws e, ms') \<Rightarrow> (Throws e, ms'))))"

text \<open>
  \<^verbatim>\<open>postMessage\<close> returns nothing (\<open>Inr True\<close> here), or an exception of
  \<^verbatim>\<open>conflate\<close> leaves it.
\<close>

definition postMessage :: "usercode \<Rightarrow> handler \<Rightarrow> msg \<Rightarrow> state \<Rightarrow> (error + bool) \<times> state" where
  "postMessage P h m s =
     (if \<not> isConflatable (messages s m) then (Inr True, enqueueMessage h m s)
      else (case someConflate P h m (messageQueue s) (messages s) of
          (Throws e, ms) \<Rightarrow> (Inl e, s\<lparr>messages := ms\<rparr>)
        | (Returns conflated, ms) \<Rightarrow>
            if \<not> conflated then (Inr True, enqueueMessage h m (s\<lparr>messages := ms\<rparr>))
            else (Inr True, s\<lparr>messages := ms\<rparr>)))"

section \<open>The hook registry\<close>

text \<open>\<^verbatim>\<open>hooks.indexOf(hook)\<close>: the first index holding the hook; \<open>None\<close> is its \<open>-1\<close>.\<close>

fun indexOf :: "'a list \<Rightarrow> 'a \<Rightarrow> nat option" where
  "indexOf [] x = None"
| "indexOf (y # ys) x =
     (if y = x then Some 0 else (case indexOf ys x of None \<Rightarrow> None | Some i \<Rightarrow> Some (Suc i)))"

definition installMessageHook :: "handler \<Rightarrow> hook \<Rightarrow> state \<Rightarrow> state" where
  "installMessageHook h k s =
     (case messageHooks s h of
        None \<Rightarrow> s\<lparr>messageHooks := (messageHooks s)(h \<mapsto> [Some k])\<rparr>
      | Some hooks \<Rightarrow>
          if indexOf hooks (Some k) \<noteq> None then s
          else s\<lparr>messageHooks := (messageHooks s)(h \<mapsto> hooks @ [Some k])\<rparr>)"

text \<open>\<^verbatim>\<open>dirtySet.add(hooks)\<close>: a set, so adding a member again changes nothing.\<close>

definition scheduleCleanup :: "handler \<Rightarrow> state \<Rightarrow> state" where
  "scheduleCleanup h s =
     (let s1 = (if dirtySet s = [] then snd (schedule CleanupDirtySet s) else s) in
      s1\<lparr>dirtySet := (if h \<in> set (dirtySet s1) then dirtySet s1 else dirtySet s1 @ [h])\<rparr>)"

definition removeMessageHook :: "handler \<Rightarrow> hook \<Rightarrow> state \<Rightarrow> state" where
  "removeMessageHook h k s =
     (case messageHooks s h of
        None \<Rightarrow> s
      | Some hooks \<Rightarrow>
          (case indexOf hooks (Some k) of
             None \<Rightarrow> s
           | Some i \<Rightarrow>
               scheduleCleanup h (s\<lparr>messageHooks := (messageHooks s)(h \<mapsto> hooks[i := None])\<rparr>)))"

definition clearPosted :: "handler \<Rightarrow> posted \<Rightarrow> posted" where
  "clearPosted h p = (if handler p = Some h then p\<lparr>handler := None, msg := None\<rparr> else p)"

text \<open>\<^verbatim>\<open>ArrayExt.fill(hooks, null)\<close> sets every slot of the array to null.\<close>

definition clearData :: "handler \<Rightarrow> state \<Rightarrow> state" where
  "clearData h s =
     (let s1 = (case messageHooks s h of
                  None \<Rightarrow> s
                | Some hooks \<Rightarrow>
                    if length hooks > 0
                    then scheduleCleanup h
                           (s\<lparr>messageHooks := (messageHooks s)(h \<mapsto> replicate (length hooks) None)\<rparr>)
                    else s)
      in s1\<lparr>messageQueue := map (clearPosted h) (messageQueue s1)\<rparr>)"

text \<open>\<^verbatim>\<open>ArrayExt.removeAllWhere(hooks, isNull)\<close> removes the null slots in place.\<close>

definition cleanupHooks :: "handler \<Rightarrow> state \<Rightarrow> state" where
  "cleanupHooks h s =
     (case messageHooks s h of
        None \<Rightarrow> s
      | Some hooks \<Rightarrow> s\<lparr>messageHooks := (messageHooks s)(h \<mapsto> filter (\<lambda>x. x \<noteq> None) hooks)\<rparr>)"

definition cleanupDirtySet :: "state \<Rightarrow> state" where
  "cleanupDirtySet s = (fold cleanupHooks (dirtySet s) s)\<lparr>dirtySet := []\<rparr>"

definition getExceptionHandler :: "state \<Rightarrow> exnhandler" where
  "getExceptionHandler s = exceptionHandler s"

definition setExceptionHandler :: "exnhandler \<Rightarrow> state \<Rightarrow> exnhandler \<times> state" where
  "setExceptionHandler x s = (exceptionHandler s, s\<lparr>exceptionHandler := x\<rparr>)"

section \<open>Dispatch\<close>

text \<open>
  The functions below call user code, and user code calls them: they are defined
  together, by recursion on a bound on the calls still allowed. A result \<open>None\<close>
  says that the bound was reached (the call does not return); \<open>Some (Inl e, s)\<close>
  that the exception \<open>e\<close> leaves the call; \<open>Some (Inr v, s)\<close> that it returns \<open>v\<close>.
\<close>

type_synonym 'a result = "((error + 'a) \<times> state) option"

definition andThen :: "'a result \<Rightarrow> ('a \<Rightarrow> state \<Rightarrow> 'b result) \<Rightarrow> 'b result" where
  "andThen r f =
     (case r of None \<Rightarrow> None | Some (Inl e, s) \<Rightarrow> Some (Inl e, s) | Some (Inr v, s) \<Rightarrow> f v s)"

text \<open>\<^verbatim>\<open>try { ... } catch (err) { ... }\<close>\<close>

definition tryCatch :: "'a result \<Rightarrow> (error \<Rightarrow> state \<Rightarrow> 'a result) \<Rightarrow> 'a result" where
  "tryCatch r c =
     (case r of None \<Rightarrow> None | Some (Inl e, s) \<Rightarrow> c e s | Some (Inr v, s) \<Rightarrow> Some (Inr v, s))"

text \<open>
  The slot \<^verbatim>\<open>hooks[i]\<close> of the hook array of a handler; \<^verbatim>\<open>undefined\<close> beyond its
  end is, like \<^verbatim>\<open>null\<close>, no hook.
\<close>

definition hookAt :: "state \<Rightarrow> handler \<Rightarrow> nat \<Rightarrow> hook option" where
  "hookAt s h i =
     (case messageHooks s h of
        None \<Rightarrow> None
      | Some hooks \<Rightarrow> if i < length hooks then hooks ! i else None)"

text \<open>
  The functions that run user code, or that user code runs. \<open>EveryRetro i h m\<close> is
  \<^verbatim>\<open>every(retro(hooks), hook => hook ? invokeHook(hook, handler, msg) : true)\<close>
  with \<open>i\<close> slots still to visit: \<^verbatim>\<open>retro\<close> yields the slots from the last index
  down, reading the array when each slot is reached, and \<^verbatim>\<open>every\<close> stops at the
  first \<^verbatim>\<open>false\<close>. \<open>RunBody cs en\<close> is user code that still makes the calls \<open>cs\<close>
  and then ends as \<open>en\<close>. \<open>MessageLoop sentinel\<close> is the \<^verbatim>\<open>while (true)\<close> loop of
  \<^verbatim>\<open>runMessageLoop\<close>.
\<close>

datatype invocation =
    SendMessage handler msg
  | EveryRetro nat handler msg
  | InvokeHook hook handler msg
  | InvokeHandler handler msg
  | CallExceptionHandler error
  | RunBody "call list" ending
  | ApiCall call
  | FlushNow
  | RunLoop
  | MessageLoop nat

text \<open>
  \<open>run P n c s\<close> executes the invocation \<open>c\<close> in the state \<open>s\<close> with at most \<open>n\<close>
  nested invocations. A function that returns nothing returns \<open>True\<close> here.
  \<^verbatim>\<open>invokeHook\<close> calls a hook function directly and a hook object through its
  \<^verbatim>\<open>messageHook\<close> method. In \<open>MessageLoop\<close>, \<^verbatim>\<open>removeFirst()\<close> of an empty queue is
  \<^verbatim>\<open>undefined\<close>, and reading its \<^verbatim>\<open>handler\<close> field throws.
\<close>

function run :: "usercode \<Rightarrow> nat \<Rightarrow> invocation \<Rightarrow> state \<Rightarrow> bool result" where
  "run P 0 c s = None"
| "run P (Suc n) (SendMessage h m) s =
     (case messageHooks s h of
        None \<Rightarrow> run P n (InvokeHandler h m) s
      | Some hooks \<Rightarrow>
          if length hooks = 0 then run P n (InvokeHandler h m) s
          else andThen (run P n (EveryRetro (length hooks) h m) s)
                 (\<lambda>passed s1. if passed then run P n (InvokeHandler h m) s1 else Some (Inr True, s1)))"
| "run P (Suc n) (EveryRetro 0 h m) s = Some (Inr True, s)"
| "run P (Suc n) (EveryRetro (Suc i) h m) s =
     (case hookAt s h i of
        None \<Rightarrow> run P n (EveryRetro i h m) s
      | Some k \<Rightarrow>
          andThen (run P n (InvokeHook k h m) s)
            (\<lambda>r s1. if r = False then Some (Inr False, s1) else run P n (EveryRetro i h m) s1))"
| "run P (Suc n) (InvokeHook (HookFunction f) h m) s =
     tryCatch
       (run P n (RunBody (calls (hookFunction P f h m (messages s m)))
                         (ending (hookFunction P f h m (messages s m))))
          (logEvent (HookCalled (HookFunction f) h m) s))
       (\<lambda>err s1. andThen (run P n (CallExceptionHandler err) s1) (\<lambda>_ s2. Some (Inr True, s2)))"
| "run P (Suc n) (InvokeHook (HookObject obj) h m) s =
     tryCatch
       (run P n (RunBody (calls (messageHook P obj h m (messages s m)))
                         (ending (messageHook P obj h m (messages s m))))
          (logEvent (HookCalled (HookObject obj) h m) s))
       (\<lambda>err s1. andThen (run P n (CallExceptionHandler err) s1) (\<lambda>_ s2. Some (Inr True, s2)))"
| "run P (Suc n) (InvokeHandler h m) s =
     tryCatch
       (andThen
          (run P n (RunBody (calls (processMessage P h m (messages s m)))
                            (ending (processMessage P h m (messages s m))))
             (logEvent (ProcessMessage h m) s))
          (\<lambda>_ s1. Some (Inr True, s1)))
       (\<lambda>err s1. run P n (CallExceptionHandler err) s1)"
| "run P (Suc n) (CallExceptionHandler err) s =
     (case exceptionHandler s of
        ConsoleError \<Rightarrow> Some (Inr True, logEvent (ExceptionHandled ConsoleError err) s)
      | CustomHandler x \<Rightarrow>
          andThen
            (run P n (RunBody (calls (handleException P x err)) (ending (handleException P x err)))
               (logEvent (ExceptionHandled (CustomHandler x) err) s))
            (\<lambda>_ s1. Some (Inr True, s1)))"
| "run P (Suc n) (RunBody [] en) s =
     (case en of Returns r \<Rightarrow> Some (Inr r, s) | Throws e \<Rightarrow> Some (Inl e, s))"
| "run P (Suc n) (RunBody (c # cs) en) s =
     andThen (run P n (ApiCall c) s) (\<lambda>_ s1. run P n (RunBody cs en) s1)"
| "run P (Suc n) (ApiCall c) s =
     (case c of
        Send h m \<Rightarrow> run P n (SendMessage h m) s
      | Post h m \<Rightarrow> Some (postMessage P h m s)
      | Install h k \<Rightarrow> Some (Inr True, installMessageHook h k s)
      | Remove h k \<Rightarrow> Some (Inr True, removeMessageHook h k s)
      | Clear h \<Rightarrow> Some (Inr True, clearData h s)
      | Flush \<Rightarrow> run P n FlushNow s
      | SetExceptionHandler x \<Rightarrow> Some (Inr True, snd (setExceptionHandler x s)))"
| "run P (Suc n) FlushNow s =
     (case pending s of
        None \<Rightarrow> Some (Inr True, s)
      | Some t \<Rightarrow>
          if flushGuard s then Some (Inr True, s)
          else andThen (run P n RunLoop ((cancel t s)\<lparr>pending := None, flushGuard := True\<rparr>))
                 (\<lambda>_ s1. Some (Inr True, s1\<lparr>flushGuard := False\<rparr>)))"
| "run P (Suc n) RunLoop s =
     (let s1 = s\<lparr>pending := None\<rparr> in
      if messageQueue s1 = [] then Some (Inr True, s1)
      else run P n (MessageLoop (nextRef s1)) (addLast None None s1))"
| "run P (Suc n) (MessageLoop sentinel) s =
     (case messageQueue s of
        [] \<Rightarrow> Some (Inl TypeError, s)
      | p # rest \<Rightarrow>
          (let s1 = logEvent (Dequeued p) (s\<lparr>messageQueue := rest\<rparr>) in
           if ref p = sentinel then Some (Inr True, s1)
           else (case (handler p, msg p) of
               (Some h, Some m) \<Rightarrow>
                 andThen (run P n (SendMessage h m) s1) (\<lambda>_ s2. run P n (MessageLoop sentinel) s2)
             | _ \<Rightarrow> run P n (MessageLoop sentinel) s1)))"
  by pat_completeness auto
termination
  by (relation "measure (\<lambda>(P, n, c, s). n)") auto

text \<open>The functions of the source, by their names.\<close>

abbreviation sendMessage :: "usercode \<Rightarrow> nat \<Rightarrow> handler \<Rightarrow> msg \<Rightarrow> state \<Rightarrow> bool result" where
  "sendMessage P n h m s \<equiv> run P n (SendMessage h m) s"

abbreviation invokeHook :: "usercode \<Rightarrow> nat \<Rightarrow> hook \<Rightarrow> handler \<Rightarrow> msg \<Rightarrow> state \<Rightarrow> bool result" where
  "invokeHook P n k h m s \<equiv> run P n (InvokeHook k h m) s"

abbreviation invokeHandler :: "usercode \<Rightarrow> nat \<Rightarrow> handler \<Rightarrow> msg \<Rightarrow> state \<Rightarrow> bool result" where
  "invokeHandler P n h m s \<equiv> run P n (InvokeHandler h m) s"

abbreviation flush :: "usercode \<Rightarrow> nat \<Rightarrow> state \<Rightarrow> bool result" where
  "flush P n s \<equiv> run P n FlushNow s"

abbreviation runMessageLoop :: "usercode \<Rightarrow> nat \<Rightarrow> state \<Rightarrow> bool result" where
  "runMessageLoop P n s \<equiv> run P n RunLoop s"

text \<open>
  One turn of the platform: the first microtask is taken off its queue and, unless
  it was cancelled, its function is run.
\<close>

definition tick :: "usercode \<Rightarrow> nat \<Rightarrow> state \<Rightarrow> bool result" where
  "tick P n s =
     (case microtasks s of
        [] \<Rightarrow> Some (Inr True, s)
      | k # ks \<Rightarrow>
          (let s1 = s\<lparr>microtasks := ks\<rparr> in
           if rejected k then Some (Inr True, s1)
           else (case job k of
               RunMessageLoop \<Rightarrow> run P n RunLoop s1
             | CleanupDirtySet \<Rightarrow> Some (Inr True, cleanupDirtySet s1))))"

section \<open>Notions for stating the properties\<close>

subsection \<open>Conflation\<close>

text \<open>
  An entry a posted message may be conflated with, when the message objects are in
  the state \<open>ms\<close>: it has the same handler and holds a conflatable message of the
  same type.
\<close>

definition conflatableWith :: "(msg \<Rightarrow> message) \<Rightarrow> handler \<Rightarrow> msg \<Rightarrow> posted \<Rightarrow> bool" where
  "conflatableWith ms h m p =
     (handler p = Some h \<and>
      (case msg p of None \<Rightarrow> False | Some pm \<Rightarrow> mtype (ms pm) = mtype (ms m) \<and> isConflatable (ms pm)))"

subsection \<open>Example systems\<close>

text \<open>Code that makes no engine call and returns.\<close>

definition quiet :: body where
  "quiet = \<lparr>calls = [], ending = Returns True\<rparr>"

text \<open>
  Message objects of one conflatable type, the object \<open>r\<close> with the payload \<open>r\<close>. In
  \<open>pickyCode\<close> a queued message absorbs a posted one only when its own payload is 1,
  and then adds the payload of the posted message to its own. In \<open>countingCode\<close> a
  queued message counts the offers made to it and declines them all. In
  \<open>throwingCode\<close> the method \<^verbatim>\<open>conflate\<close> throws.
\<close>

definition exampleMsg :: "nat \<Rightarrow> message" where
  "exampleMsg v = \<lparr>mtype = ''update'', isConflatable = True, payload = v\<rparr>"

definition pickyCode :: usercode where
  "pickyCode = \<lparr>processMessage = (\<lambda>h m c. quiet), hookFunction = (\<lambda>f h m c. quiet),
     messageHook = (\<lambda>obj h m c. quiet), handleException = (\<lambda>x e. quiet),
     conflate = (\<lambda>this other ms.
        if payload (ms this) = 1
        then (Returns True, ms(this := (ms this)\<lparr>payload := payload (ms this) + payload (ms other)\<rparr>))
        else (Returns False, ms))\<rparr>"

definition countingCode :: usercode where
  "countingCode = pickyCode\<lparr>conflate := (\<lambda>this other ms.
     (Returns False, ms(this := (ms this)\<lparr>payload := Suc (payload (ms this))\<rparr>)))\<rparr>"

definition throwingCode :: usercode where
  "throwingCode = pickyCode\<lparr>conflate := (\<lambda>this other ms. (Throws (UserError 9), ms))\<rparr>"

text \<open>The objects 0 and 1 posted to the handler 7, in this order.\<close>

definition twoPosted :: state where
  "twoPosted = snd (postMessage pickyCode 7 1 (snd (postMessage pickyCode 7 0 (initial exampleMsg))))"

subsection \<open>Deliveries\<close>

text \<open>The hook array of a handler; a handler without an array has no hooks.\<close>

definition hooksOf :: "state \<Rightarrow> handler \<Rightarrow> hook option list" where
  "hooksOf s h = (case messageHooks s h of None \<Rightarrow> [] | Some hooks \<Rightarrow> hooks)"

text \<open>
  What the user code of a system does when the hook \<open>k\<close> is invoked for the handler
  \<open>h\<close> with the message object \<open>m\<close> in the state \<open>c\<close>: a hook that is a function is
  that function, a hook that is an object is its \<^verbatim>\<open>messageHook\<close> method.
\<close>

definition hookBody :: "usercode \<Rightarrow> hook \<Rightarrow> handler \<Rightarrow> msg \<Rightarrow> message \<Rightarrow> body" where
  "hookBody P k h m c =
     (case k of HookFunction f \<Rightarrow> hookFunction P f h m c | HookObject obj \<Rightarrow> messageHook P obj h m c)"

text \<open>
  What \<^verbatim>\<open>invokeHook\<close> makes of the way a hook ends (a hook that throws counts as
  \<^verbatim>\<open>true\<close>), and the call of the exception handler that a throw causes.
\<close>

definition verdict :: "ending \<Rightarrow> bool" where
  "verdict en = (case en of Returns b \<Rightarrow> b | Throws e \<Rightarrow> True)"

definition faults :: "exnhandler \<Rightarrow> ending \<Rightarrow> event list" where
  "faults x en = (case en of Returns b \<Rightarrow> [] | Throws e \<Rightarrow> [ExceptionHandled x e])"

text \<open>
  The calls a delivery makes when the hooks and the handler make no engine call, as
  the specification words it: the slots are walked newest first (the list given is
  the hook array reversed), empty slots are skipped, the walk stops after the first
  hook that returns false, and the handler is called only if no hook did. \<open>c\<close> is the
  state of the message object.
\<close>

fun chainEvents ::
  "usercode \<Rightarrow> exnhandler \<Rightarrow> handler \<Rightarrow> msg \<Rightarrow> message \<Rightarrow> hook option list \<Rightarrow> event list" where
  "chainEvents P x h m c [] = []"
| "chainEvents P x h m c (None # ks) = chainEvents P x h m c ks"
| "chainEvents P x h m c (Some k # ks) =
     HookCalled k h m # faults x (ending (hookBody P k h m c)) @
       (if verdict (ending (hookBody P k h m c)) then chainEvents P x h m c ks else [])"

fun chainPasses :: "usercode \<Rightarrow> handler \<Rightarrow> msg \<Rightarrow> message \<Rightarrow> hook option list \<Rightarrow> bool" where
  "chainPasses P h m c [] = True"
| "chainPasses P h m c (None # ks) = chainPasses P h m c ks"
| "chainPasses P h m c (Some k # ks) = (verdict (ending (hookBody P k h m c)) \<and> chainPasses P h m c ks)"

definition delivery ::
  "usercode \<Rightarrow> exnhandler \<Rightarrow> handler \<Rightarrow> msg \<Rightarrow> message \<Rightarrow> hook option list \<Rightarrow> event list" where
  "delivery P x h m c ks =
     chainEvents P x h m c ks @
       (if chainPasses P h m c ks
        then ProcessMessage h m # faults x (ending (processMessage P h m c)) else [])"

text \<open>
  An exception handler is \<open>tame\<close> when it makes no engine call and returns; a
  possible throw is \<open>contained\<close> when the handler that would receive it is tame.
\<close>

definition tame :: "usercode \<Rightarrow> exnhandler \<Rightarrow> bool" where
  "tame P x =
     (case x of
        ConsoleError \<Rightarrow> True
      | CustomHandler y \<Rightarrow>
          \<forall>e. calls (handleException P y e) = [] \<and> (\<exists>b. ending (handleException P y e) = Returns b))"

definition contained :: "usercode \<Rightarrow> exnhandler \<Rightarrow> ending \<Rightarrow> bool" where
  "contained P x en = (tame P x \<or> (\<exists>b. en = Returns b))"

text \<open>The hooks in the slots that are not empty, in the order of the slots.\<close>

fun liveHooks :: "hook option list \<Rightarrow> hook list" where
  "liveHooks [] = []"
| "liveHooks (None # ks) = liveHooks ks"
| "liveHooks (Some k # ks) = k # liveHooks ks"

subsection \<open>A send, whatever the user code does\<close>

text \<open>
  Hooks and handlers may call back into the engine, so what a send does cannot be
  listed in advance. What the specification says of it is said here step by step,
  with the user code taken from the table of the system.

  \<open>ends P b s r t\<close>: the user code \<open>b\<close>, started in the state \<open>s\<close>, ends in the state
  \<open>t\<close>, returning \<open>v\<close> (\<open>r = Inr v\<close>) or throwing \<open>e\<close> (\<open>r = Inl e\<close>).
  \<open>handled P e s r t\<close>: the exception \<open>e\<close>, passed to the exception handler in the
  state \<open>s\<close>, leaves the state \<open>t\<close>; the handler returned (\<open>Inr\<close>) or threw (\<open>Inl\<close>).
\<close>

definition ends :: "usercode \<Rightarrow> body \<Rightarrow> state \<Rightarrow> error + bool \<Rightarrow> state \<Rightarrow> bool" where
  "ends P b s r t = (\<exists>n. run P n (RunBody (calls b) (ending b)) s = Some (r, t))"

definition handled :: "usercode \<Rightarrow> error \<Rightarrow> state \<Rightarrow> error + bool \<Rightarrow> state \<Rightarrow> bool" where
  "handled P e s r t = (\<exists>n. run P n (CallExceptionHandler e) s = Some (r, t))"

text \<open>
  \<open>hookAnswers P k h m s r t\<close>: the hook \<open>k\<close> is invoked with the handler and the
  message, and answers \<open>r\<close>: what it returns, or true when it throws and the exception
  handler returns; an exception of the exception handler goes on.
\<close>

inductive hookAnswers ::
  "usercode \<Rightarrow> hook \<Rightarrow> handler \<Rightarrow> msg \<Rightarrow> state \<Rightarrow> error + bool \<Rightarrow> state \<Rightarrow> bool" where
  answers: "ends P (hookBody P k h m (messages s m)) (logEvent (HookCalled k h m) s) (Inr b) t \<Longrightarrow>
      hookAnswers P k h m s (Inr b) t"
| faulty: "ends P (hookBody P k h m (messages s m)) (logEvent (HookCalled k h m) s) (Inl e) u \<Longrightarrow>
      handled P e u (Inr v) t \<Longrightarrow> hookAnswers P k h m s (Inr True) t"
| escapes: "ends P (hookBody P k h m (messages s m)) (logEvent (HookCalled k h m) s) (Inl e) u \<Longrightarrow>
      handled P e u (Inl e') t \<Longrightarrow> hookAnswers P k h m s (Inl e') t"

text \<open>
  \<open>walk P h m i s r t\<close>: the walk over the \<open>i\<close> oldest slots of the hook array of \<open>h\<close>,
  newest first. An empty slot is passed over; a hook that answers true lets the walk
  go on to the older slots; at the first hook that answers false the walk is over,
  and no older hook is invoked. The walk yields whether every hook invoked answered
  true.
\<close>

inductive walk ::
  "usercode \<Rightarrow> handler \<Rightarrow> msg \<Rightarrow> nat \<Rightarrow> state \<Rightarrow> error + bool \<Rightarrow> state \<Rightarrow> bool" where
  walked: "walk P h m 0 s (Inr True) s"
| skip: "hookAt s h i = None \<Longrightarrow> walk P h m i s r t \<Longrightarrow> walk P h m (Suc i) s r t"
| pass: "hookAt s h i = Some k \<Longrightarrow> hookAnswers P k h m s (Inr True) u \<Longrightarrow> walk P h m i u r t \<Longrightarrow>
      walk P h m (Suc i) s r t"
| veto: "hookAt s h i = Some k \<Longrightarrow> hookAnswers P k h m s (Inr False) t \<Longrightarrow>
      walk P h m (Suc i) s (Inr False) t"
| abort: "hookAt s h i = Some k \<Longrightarrow> hookAnswers P k h m s (Inl e) t \<Longrightarrow>
      walk P h m (Suc i) s (Inl e) t"

text \<open>
  \<open>processes P h m s r t\<close>: \<open>processMessage\<close> of the handler is invoked once with the
  message; an exception it throws is passed to the exception handler.
\<close>

inductive processes ::
  "usercode \<Rightarrow> handler \<Rightarrow> msg \<Rightarrow> state \<Rightarrow> error + bool \<Rightarrow> state \<Rightarrow> bool" where
  processed: "ends P (processMessage P h m (messages s m)) (logEvent (ProcessMessage h m) s) (Inr b) t \<Longrightarrow>
      processes P h m s (Inr True) t"
| failed: "ends P (processMessage P h m (messages s m)) (logEvent (ProcessMessage h m) s) (Inl e) u \<Longrightarrow>
      handled P e u r t \<Longrightarrow> processes P h m s r t"

text \<open>
  \<open>sends P h m s r t\<close>: the send of the message \<open>m\<close> to the handler \<open>h\<close>. The hook
  array is walked from its newest slot; \<open>processMessage\<close> is invoked when that walk
  yields true (also when there is no hook), and is not invoked when it yields false.
\<close>

inductive sends ::
  "usercode \<Rightarrow> handler \<Rightarrow> msg \<Rightarrow> state \<Rightarrow> error + bool \<Rightarrow> state \<Rightarrow> bool" where
  delivered: "walk P h m (length (hooksOf s h)) s (Inr True) u \<Longrightarrow> processes P h m u r t \<Longrightarrow>
      sends P h m s r t"
| vetoed: "walk P h m (length (hooksOf s h)) s (Inr False) t \<Longrightarrow> sends P h m s (Inr True) t"
| aborted: "walk P h m (length (hooksOf s h)) s (Inl e) t \<Longrightarrow> sends P h m s (Inl e) t"

subsection \<open>What user code does\<close>

text \<open>The engine calls that occur anywhere in the user code of a system.\<close>

definition userCalls :: "usercode \<Rightarrow> call set" where
  "userCalls P =
     (\<Union>k h m c. set (calls (hookBody P k h m c))) \<union>
     (\<Union>h m c. set (calls (processMessage P h m c))) \<union>
     (\<Union>x e. set (calls (handleException P x e)))"

text \<open>No exception handler of the system throws.\<close>

definition exceptionsHandled :: "usercode \<Rightarrow> bool" where
  "exceptionsHandled P = (\<forall>n e s x t. run P n (CallExceptionHandler e) s \<noteq> Some (Inl x, t))"

subsection \<open>Invariants of nested invocations\<close>

text \<open>
  \<open>permitted okc oks loops s c\<close>: the invocation \<open>c\<close> may occur in a system whose user
  code makes only the calls \<open>okc\<close>, where messages are sent only to the pairs \<open>oks\<close>
  and the loop runs only if \<open>loops\<close>.
\<close>

fun permitted :: "(call \<Rightarrow> bool) \<Rightarrow> (handler \<Rightarrow> msg \<Rightarrow> bool) \<Rightarrow> bool \<Rightarrow> state \<Rightarrow> invocation \<Rightarrow> bool" where
  "permitted okc oks loops s (SendMessage h m) = oks h m"
| "permitted okc oks loops s (EveryRetro i h m) = oks h m"
| "permitted okc oks loops s (InvokeHook k h m) = (oks h m \<and> (\<exists>i. hookAt s h i = Some k))"
| "permitted okc oks loops s (InvokeHandler h m) = oks h m"
| "permitted okc oks loops s (CallExceptionHandler e) = True"
| "permitted okc oks loops s (RunBody cs en) = (\<forall>c \<in> set cs. okc c)"
| "permitted okc oks loops s (ApiCall c) = okc c"
| "permitted okc oks loops s FlushNow = okc Flush"
| "permitted okc oks loops s RunLoop = (loops \<and> pending s = None)"
| "permitted okc oks loops s (MessageLoop sentinel) = loops"

text \<open>
  Message objects that are not conflatable: the object 13 is of the type \<open>blocked\<close>,
  every other one of the type \<open>resize\<close>.
\<close>

definition plainMsg :: "string \<Rightarrow> message" where
  "plainMsg t = \<lparr>mtype = t, isConflatable = False, payload = 0\<rparr>"

definition plainMessages :: "msg \<Rightarrow> message" where
  "plainMessages r = plainMsg (if r = 13 then ''blocked'' else ''resize'')"

text \<open>
  Hook objects veto the messages of type \<open>blocked\<close>; everything else returns. Handler 3
  has a hook function installed first and a hook object installed after it; in
  \<open>threeHooks\<close> another hook function is installed after these.
\<close>

definition guardedCode :: usercode where
  "guardedCode = \<lparr>processMessage = (\<lambda>h m c. quiet), hookFunction = (\<lambda>f h m c. quiet),
     messageHook = (\<lambda>obj h m c. \<lparr>calls = [], ending = Returns (mtype c \<noteq> ''blocked'')\<rparr>),
     handleException = (\<lambda>x e. quiet), conflate = (\<lambda>this other ms. (Returns False, ms))\<rparr>"

text \<open>
  The handler 1 and every hook function throw. In \<open>faultyCode\<close> the custom exception
  handlers return; in \<open>rethrowingCode\<close> they throw what they are given.
\<close>

definition faultyCode :: usercode where
  "faultyCode = \<lparr>processMessage = (\<lambda>h m c. if h = 1 then \<lparr>calls = [], ending = Throws (UserError 1)\<rparr> else quiet),
     hookFunction = (\<lambda>f h m c. \<lparr>calls = [], ending = Throws (UserError 2)\<rparr>),
     messageHook = (\<lambda>obj h m c. quiet), handleException = (\<lambda>x e. quiet),
     conflate = (\<lambda>this other ms. (Returns False, ms))\<rparr>"

definition rethrowingCode :: usercode where
  "rethrowingCode = faultyCode\<lparr>handleException := (\<lambda>x e. \<lparr>calls = [], ending = Throws e\<rparr>)\<rparr>"

definition faultyHooked :: state where
  "faultyHooked = installMessageHook 1 (HookFunction 0) (initial plainMessages)"

text \<open>
  The message 1 posted to the handler 1 and the message 2 to the handler 2, with a
  custom exception handler set.
\<close>

definition rethrowing :: state where
  "rethrowing = snd (postMessage rethrowingCode 2 2
     (snd (postMessage rethrowingCode 1 1 ((initial plainMessages)\<lparr>exceptionHandler := CustomHandler 0\<rparr>))))"

definition hooked :: state where
  "hooked = installMessageHook 3 (HookObject 1) (installMessageHook 3 (HookFunction 0) (initial plainMessages))"

definition threeHooks :: state where
  "threeHooks = installMessageHook 3 (HookFunction 2) hooked"

text \<open>Handler 3 with the hook function alone.\<close>

definition oneHook :: state where
  "oneHook = installMessageHook 3 (HookFunction 0) (initial plainMessages)"

text \<open>No hook is held twice by the hook array of a handler.\<close>

definition distinctHooks :: "state \<Rightarrow> bool" where
  "distinctHooks s = (\<forall>h. distinct (liveHooks (hooksOf s h)))"

text \<open>Every hook function removes itself when it is called.\<close>

definition oneShotCode :: usercode where
  "oneShotCode = \<lparr>processMessage = (\<lambda>h m c. quiet),
     hookFunction = (\<lambda>f h m c. \<lparr>calls = [Remove h (HookFunction f)], ending = Returns True\<rparr>),
     messageHook = (\<lambda>obj h m c. quiet), handleException = (\<lambda>x e. quiet),
     conflate = (\<lambda>this other ms. (Returns False, ms))\<rparr>"

text \<open>The calls of the hook \<open>k\<close> for the handler \<open>h\<close> in a log.\<close>

fun isHookCall :: "hook \<Rightarrow> handler \<Rightarrow> event \<Rightarrow> bool" where
  "isHookCall k h (HookCalled k' h' m) = (k' = k \<and> h' = h)"
| "isHookCall k h _ = False"

text \<open>The message 0 posted to handler 3 of the initial state.\<close>

definition onePosted :: state where
  "onePosted = snd (postMessage guardedCode 3 0 (initial plainMessages))"

subsection \<open>Scheduled loop runs\<close>

text \<open>
  The loop runs that are scheduled: the microtasks that will run the loop and were
  not cancelled. \<open>singleRun\<close>: the pending handle, when set, is the handle of the one
  scheduled run, and nothing is scheduled when it is null.
\<close>

definition liveLoopTask :: "task \<Rightarrow> bool" where
  "liveLoopTask k = (job k = RunMessageLoop \<and> \<not> rejected k)"

definition scheduledRuns :: "state \<Rightarrow> task list" where
  "scheduledRuns s = filter liveLoopTask (microtasks s)"

definition singleRun :: "state \<Rightarrow> bool" where
  "singleRun s = (map tid (scheduledRuns s) = (case pending s of None \<Rightarrow> [] | Some t \<Rightarrow> [t]))"

text \<open>
  The handler 1 posts the message 5 to the handler 2 while it processes its own; in
  \<open>flushingCode\<close> it then calls \<^verbatim>\<open>flush\<close>.
\<close>

definition flushingCode :: usercode where
  "flushingCode = \<lparr>processMessage = (\<lambda>h m c. if h = 1
        then \<lparr>calls = [Post 2 5, Flush], ending = Returns True\<rparr> else quiet),
     hookFunction = (\<lambda>f h m c. quiet), messageHook = (\<lambda>obj h m c. quiet),
     handleException = (\<lambda>x e. quiet), conflate = (\<lambda>this other ms. (Returns False, ms))\<rparr>"

definition repostingCode :: usercode where
  "repostingCode = flushingCode\<lparr>processMessage := (\<lambda>h m c. if h = 1
        then \<lparr>calls = [Post 2 5], ending = Returns True\<rparr> else quiet)\<rparr>"

text \<open>The message 4 posted to the handler 1.\<close>

definition goPosted :: state where
  "goPosted = snd (postMessage flushingCode 1 4 (initial plainMessages))"

subsection \<open>Loop runs\<close>

text \<open>
  The entries taken off the queue, in the order of a log. A state is \<open>allocated\<close>
  when the references of the queued entries are references that were handed out.
  \<open>deliveryOf\<close>: what the loop does with one entry when hooks and handlers make no
  engine call.
\<close>

fun dequeued :: "event list \<Rightarrow> posted list" where
  "dequeued [] = []"
| "dequeued (Dequeued p # evs) = p # dequeued evs"
| "dequeued (ev # evs) = dequeued evs"

definition allocated :: "state \<Rightarrow> bool" where
  "allocated s = (\<forall>r \<in> set (map ref (messageQueue s)). r < nextRef s)"

definition deliveryOf :: "usercode \<Rightarrow> state \<Rightarrow> posted \<Rightarrow> event list" where
  "deliveryOf P s p =
     Dequeued p #
       (case handler p of
          None \<Rightarrow> []
        | Some h \<Rightarrow>
            (case msg p of
               None \<Rightarrow> []
             | Some m \<Rightarrow> delivery P (exceptionHandler s) h m (messages s m) (rev (hooksOf s h))))"

subsection \<open>Clearing a handler\<close>

text \<open>
  The events that reach a handler: a call of one of its hooks, or of its
  \<^verbatim>\<open>processMessage\<close>.
\<close>

fun concerns :: "handler \<Rightarrow> event \<Rightarrow> bool" where
  "concerns h (HookCalled k h' m) = (h' = h)"
| "concerns h (ProcessMessage h' m) = (h' = h)"
| "concerns h _ = False"

text \<open>
  A dequeued entry that still names the handler \<open>h\<close> and whose reference was
  allocated before \<open>N\<close>.
\<close>

fun stale :: "handler \<Rightarrow> nat \<Rightarrow> event \<Rightarrow> bool" where
  "stale h N (Dequeued p) = (handler p = Some h \<and> ref p < N)"
| "stale h N _ = False"

text \<open>No entry of the queue names the handler.\<close>

definition noneQueuedFor :: "handler \<Rightarrow> state \<Rightarrow> bool" where
  "noneQueuedFor h s = (Some h \<notin> set (map handler (messageQueue s)))"

text \<open>The message 0 posted to handler 3, then \<^verbatim>\<open>clearData\<close> of that handler.\<close>

definition cleared :: state where
  "cleared = clearData 3 onePosted"

section \<open>Properties of posting\<close>

lemma invokeHook_unfold:
  "run P (Suc n) (InvokeHook k h m) s =
     tryCatch
       (run P n (RunBody (calls (hookBody P k h m (messages s m)))
                         (ending (hookBody P k h m (messages s m))))
          (logEvent (HookCalled k h m) s))
       (\<lambda>err s1. andThen (run P n (CallExceptionHandler err) s1) (\<lambda>_ s2. Some (Inr True, s2)))"
  by (cases k) (simp_all add: hookBody_def)

declare run.simps(5,6) [simp del]
declare invokeHook_unfold [simp]

lemma messages_same [simp]: "s\<lparr>messages := messages s\<rparr> = s"
  by (cases s) simp

lemma post_shape:
  "\<exists>ms. snd (postMessage P h m s) = s\<lparr>messages := ms\<rparr> \<or>
        snd (postMessage P h m s) = enqueueMessage h m (s\<lparr>messages := ms\<rparr>)"
proof (cases "isConflatable (messages s m)")
  case False
  then have "snd (postMessage P h m s) = enqueueMessage h m (s\<lparr>messages := messages s\<rparr>)"
    by (simp add: postMessage_def)
  then show ?thesis by blast
next
  case True
  obtain en ms where sc: "someConflate P h m (messageQueue s) (messages s) = (en, ms)"
    by (cases "someConflate P h m (messageQueue s) (messages s)")
  then have "snd (postMessage P h m s) = s\<lparr>messages := ms\<rparr> \<or>
        snd (postMessage P h m s) = enqueueMessage h m (s\<lparr>messages := ms\<rparr>)"
    using True by (cases en) (auto simp: postMessage_def)
  then show ?thesis by blast
qed

lemma enqueue_frame [simp]:
  "messageHooks (enqueueMessage h m s) = messageHooks s"
  "log (enqueueMessage h m s) = log s"
  "flushGuard (enqueueMessage h m s) = flushGuard s"
  "exceptionHandler (enqueueMessage h m s) = exceptionHandler s"
  "dirtySet (enqueueMessage h m s) = dirtySet s"
  "messages (enqueueMessage h m s) = messages s"
  by (auto simp: enqueueMessage_def addLast_def schedule_def Let_def)

lemma post_frame [simp]:
  "messageHooks (snd (postMessage P h m s)) = messageHooks s"
  "log (snd (postMessage P h m s)) = log s"
  "flushGuard (snd (postMessage P h m s)) = flushGuard s"
  "exceptionHandler (snd (postMessage P h m s)) = exceptionHandler s"
  "dirtySet (snd (postMessage P h m s)) = dirtySet s"
proof -
  obtain ms where "snd (postMessage P h m s) = s\<lparr>messages := ms\<rparr> \<or>
        snd (postMessage P h m s) = enqueueMessage h m (s\<lparr>messages := ms\<rparr>)"
    using post_shape by blast
  then show "messageHooks (snd (postMessage P h m s)) = messageHooks s"
    "log (snd (postMessage P h m s)) = log s"
    "flushGuard (snd (postMessage P h m s)) = flushGuard s"
    "exceptionHandler (snd (postMessage P h m s)) = exceptionHandler s"
    "dirtySet (snd (postMessage P h m s)) = dirtySet s"
    by auto
qed

lemma messageQueue_enqueueMessage:
  "messageQueue (enqueueMessage h m s) =
     messageQueue s @ [\<lparr>ref = nextRef s, handler = Some h, msg = Some m\<rparr>]"
  by (simp add: enqueueMessage_def addLast_def schedule_def Let_def)

section \<open>Reasoning about nested invocations\<close>

lemma andThen_Some:
  "andThen r f = Some (x, s') \<longleftrightarrow>
     (\<exists>e. r = Some (Inl e, s') \<and> x = Inl e) \<or> (\<exists>v s1. r = Some (Inr v, s1) \<and> f v s1 = Some (x, s'))"
  by (auto simp: andThen_def split: option.splits sum.splits prod.splits)

lemma tryCatch_Some:
  "tryCatch r c = Some (x, s') \<longleftrightarrow>
     (\<exists>e s1. r = Some (Inl e, s1) \<and> c e s1 = Some (x, s')) \<or> (\<exists>v. r = Some (Inr v, s') \<and> x = Inr v)"
  by (auto simp: tryCatch_def split: option.splits sum.splits prod.splits)

text \<open>
  A state predicate that every step of the engine keeps is kept by every invocation,
  whatever the user code does through the permitted calls.
\<close>

lemma run_invariant_aux:
  assumes hookcalls: "\<And>k h m c a. a \<in> set (calls (hookBody P k h m c)) \<Longrightarrow> okc a"
    and handlercalls: "\<And>h m c a. a \<in> set (calls (processMessage P h m c)) \<Longrightarrow> okc a"
    and exncalls: "\<And>x e a. a \<in> set (calls (handleException P x e)) \<Longrightarrow> okc a"
    and send_ok: "\<And>h m. okc (Send h m) \<Longrightarrow> oks h m"
    and ev_hook: "\<And>s k h m i. I s \<Longrightarrow> oks h m \<Longrightarrow> hookAt s h i = Some k \<Longrightarrow> I (logEvent (HookCalled k h m) s)"
    and ev_proc: "\<And>s h m. I s \<Longrightarrow> oks h m \<Longrightarrow> I (logEvent (ProcessMessage h m) s)"
    and ev_exn: "\<And>s e. I s \<Longrightarrow> I (logEvent (ExceptionHandled (exceptionHandler s) e) s)"
    and post: "\<And>s h m. I s \<Longrightarrow> okc (Post h m) \<Longrightarrow> I (snd (postMessage P h m s))"
    and install: "\<And>s h k. I s \<Longrightarrow> okc (Install h k) \<Longrightarrow> I (installMessageHook h k s)"
    and remove: "\<And>s h k. I s \<Longrightarrow> okc (Remove h k) \<Longrightarrow> I (removeMessageHook h k s)"
    and clear: "\<And>s h. I s \<Longrightarrow> okc (Clear h) \<Longrightarrow> I (clearData h s)"
    and setexn: "\<And>s x. I s \<Longrightarrow> okc (SetExceptionHandler x) \<Longrightarrow> I (s\<lparr>exceptionHandler := x\<rparr>)"
    and flush: "\<And>s t n r s1. I s \<Longrightarrow> okc Flush \<Longrightarrow> pending s = Some t \<Longrightarrow> \<not> flushGuard s \<Longrightarrow>
        run P n RunLoop ((cancel t s)\<lparr>pending := None, flushGuard := True\<rparr>) = Some (r, s1) \<Longrightarrow>
        (loops \<Longrightarrow> I ((cancel t s)\<lparr>pending := None, flushGuard := True\<rparr>) \<Longrightarrow> I s1) \<Longrightarrow>
        I (case r of Inl e \<Rightarrow> s1 | Inr v \<Rightarrow> s1\<lparr>flushGuard := False\<rparr>)"
    and sentinel: "\<And>s. loops \<Longrightarrow> I s \<Longrightarrow> pending s = None \<Longrightarrow> messageQueue s \<noteq> [] \<Longrightarrow> I (addLast None None s)"
    and dequeue: "\<And>s p rest. loops \<Longrightarrow> I s \<Longrightarrow> messageQueue s = p # rest \<Longrightarrow>
        I (logEvent (Dequeued p) (s\<lparr>messageQueue := rest\<rparr>)) \<and>
        (\<forall>h m. handler p = Some h \<longrightarrow> msg p = Some m \<longrightarrow> oks h m)"
  shows "run P n c s = Some (r, s') \<Longrightarrow> I s \<Longrightarrow> permitted okc oks loops s c \<Longrightarrow> I s'"
proof (induction n arbitrary: c s r s')
  case 0
  then show ?case by simp
next
  case (Suc n)
  note IH = Suc.IH
  note run = Suc.prems(1)
  note I = Suc.prems(2)
  note ok = Suc.prems(3)
  show ?case
  proof (cases c)
    case (SendMessage h m)
    have oks: "oks h m" using ok SendMessage by simp
    have handler: "\<And>s1 x. I s1 \<Longrightarrow> run P n (InvokeHandler h m) s1 = Some (x, s') \<Longrightarrow> I s'"
      using IH oks by force
    show ?thesis
    proof (cases "messageHooks s h")
      case None
      then show ?thesis using run SendMessage handler I by simp
    next
      case (Some hooks)
      show ?thesis
      proof (cases "length hooks = 0")
        case True
        then show ?thesis using run SendMessage Some handler I by simp
      next
        case False
        from run SendMessage Some False
        have "andThen (run P n (EveryRetro (length hooks) h m) s)
                (\<lambda>passed s1. if passed then run P n (InvokeHandler h m) s1 else Some (Inr True, s1))
              = Some (r, s')" by simp
        then consider e where "run P n (EveryRetro (length hooks) h m) s = Some (Inl e, s')"
          | v s1 where "run P n (EveryRetro (length hooks) h m) s = Some (Inr v, s1)"
              "(if v then run P n (InvokeHandler h m) s1 else Some (Inr True, s1)) = Some (r, s')"
          unfolding andThen_Some by blast
        then show ?thesis
        proof cases
          case 1
          then show ?thesis using IH[OF 1 I] oks by simp
        next
          case 2
          have "I s1" using IH[OF 2(1) I] oks by simp
          then show ?thesis using 2(2) handler by (cases v) auto
        qed
      qed
    qed
  next
    case (EveryRetro i h m)
    have oks: "oks h m" using ok EveryRetro by simp
    show ?thesis
    proof (cases i)
      case 0
      then show ?thesis using run EveryRetro I by simp
    next
      case (Suc j)
      have rest: "\<And>s1 x. I s1 \<Longrightarrow> run P n (EveryRetro j h m) s1 = Some (x, s') \<Longrightarrow> I s'"
        using IH oks by force
      show ?thesis
      proof (cases "hookAt s h j")
        case None
        then show ?thesis using run EveryRetro Suc rest I by simp
      next
        case (Some k)
        from run EveryRetro Suc Some
        consider e where "run P n (InvokeHook k h m) s = Some (Inl e, s')"
          | v s1 where "run P n (InvokeHook k h m) s = Some (Inr v, s1)"
              "(if v = False then Some (Inr False, s1) else run P n (EveryRetro j h m) s1) = Some (r, s')"
          by (auto simp: andThen_Some)
        then show ?thesis
        proof cases
          case 1
          show ?thesis by (rule IH[OF 1 I]) (use oks Some in auto)
        next
          case 2
          have "I s1" by (rule IH[OF 2(1) I]) (use oks Some in auto)
          then show ?thesis using 2(2) rest by (cases v) auto
        qed
      qed
    qed
  next
    case (InvokeHook k h m)
    from ok InvokeHook obtain i where oks: "oks h m" and at: "hookAt s h i = Some k" by auto
    have I0: "I (logEvent (HookCalled k h m) s)" using ev_hook[OF I oks at] .
    let ?b = "RunBody (calls (hookBody P k h m (messages s m))) (ending (hookBody P k h m (messages s m)))"
    have body: "\<And>x s1. run P n ?b (logEvent (HookCalled k h m) s) = Some (x, s1) \<Longrightarrow> I s1"
      by (rule IH[OF _ I0]) (use hookcalls in auto)
    from run InvokeHook
    consider e s1 where "run P n ?b (logEvent (HookCalled k h m) s) = Some (Inl e, s1)"
        "andThen (run P n (CallExceptionHandler e) s1) (\<lambda>_ s2. Some (Inr True, s2)) = Some (r, s')"
      | v where "run P n ?b (logEvent (HookCalled k h m) s) = Some (Inr v, s')"
      by (auto simp: tryCatch_Some)
    then show ?thesis
    proof cases
      case 1
      have "I s1" using body 1(1) by blast
      moreover from 1(2) obtain x where "run P n (CallExceptionHandler e) s1 = Some (x, s')"
        by (auto simp: andThen_Some)
      ultimately show ?thesis using IH by force
    next
      case 2
      then show ?thesis using body by blast
    qed
  next
    case (InvokeHandler h m)
    have oks: "oks h m" using ok InvokeHandler by simp
    have I0: "I (logEvent (ProcessMessage h m) s)" using ev_proc[OF I oks] .
    let ?b = "RunBody (calls (processMessage P h m (messages s m))) (ending (processMessage P h m (messages s m)))"
    have body: "\<And>x s1. run P n ?b (logEvent (ProcessMessage h m) s) = Some (x, s1) \<Longrightarrow> I s1"
      by (rule IH[OF _ I0]) (use handlercalls in auto)
    from run InvokeHandler
    consider e s1 where "run P n ?b (logEvent (ProcessMessage h m) s) = Some (Inl e, s1)"
        "run P n (CallExceptionHandler e) s1 = Some (r, s')"
      | v where "run P n ?b (logEvent (ProcessMessage h m) s) = Some (Inr v, s')"
      by (auto simp: tryCatch_Some andThen_Some)
    then show ?thesis
    proof cases
      case 1
      have "I s1" using body 1(1) by blast
      then show ?thesis using IH 1(2) by force
    next
      case 2
      then show ?thesis using body by blast
    qed
  next
    case (CallExceptionHandler e)
    show ?thesis
    proof (cases "exceptionHandler s")
      case ConsoleError
      then show ?thesis using run CallExceptionHandler ev_exn[OF I, of e] by auto
    next
      case (CustomHandler x)
      have I0: "I (logEvent (ExceptionHandled (CustomHandler x) e) s)"
        using ev_exn[OF I, of e] CustomHandler by simp
      from run CallExceptionHandler CustomHandler
      obtain y where "run P n (RunBody (calls (handleException P x e)) (ending (handleException P x e)))
          (logEvent (ExceptionHandled (CustomHandler x) e) s) = Some (y, s')"
        by (auto simp: andThen_Some)
      then show ?thesis by (rule IH[OF _ I0]) (use exncalls in auto)
    qed
  next
    case (RunBody cs en)
    show ?thesis
    proof (cases cs)
      case Nil
      then show ?thesis using run RunBody I by (auto split: ending.splits)
    next
      case (Cons a as)
      from run RunBody Cons
      consider e where "run P n (ApiCall a) s = Some (Inl e, s')"
        | v s1 where "run P n (ApiCall a) s = Some (Inr v, s1)" "run P n (RunBody as en) s1 = Some (r, s')"
        by (auto simp: andThen_Some)
      then show ?thesis
      proof cases
        case 1
        show ?thesis by (rule IH[OF 1 I]) (use ok RunBody Cons in auto)
      next
        case 2
        have "I s1" by (rule IH[OF 2(1) I]) (use ok RunBody Cons in auto)
        then show ?thesis by (rule IH[OF 2(2)]) (use ok RunBody Cons in auto)
      qed
    qed
  next
    case (ApiCall a)
    have okc: "okc a" using ok ApiCall by simp
    show ?thesis
    proof (cases a)
      case (Send h m)
      then show ?thesis using run ApiCall IH[OF _ I, of "SendMessage h m"] send_ok okc by auto
    next
      case (Post h m)
      then show ?thesis using run ApiCall post[OF I, of h m] okc by auto
    next
      case (Install h k)
      then show ?thesis using run ApiCall install[OF I, of h k] okc by auto
    next
      case (Remove h k)
      then show ?thesis using run ApiCall remove[OF I, of h k] okc by auto
    next
      case (Clear h)
      then show ?thesis using run ApiCall clear[OF I, of h] okc by auto
    next
      case Flush
      then show ?thesis using run ApiCall IH[OF _ I, of FlushNow] okc by auto
    next
      case (SetExceptionHandler x)
      then show ?thesis using run ApiCall setexn[OF I, of x] okc by (auto simp: setExceptionHandler_def)
    qed
  next
    case FlushNow
    have okc: "okc Flush" using ok FlushNow by simp
    show ?thesis
    proof (cases "pending s")
      case None
      then show ?thesis using run FlushNow I by simp
    next
      case (Some t)
      show ?thesis
      proof (cases "flushGuard s")
        case True
        then show ?thesis using run FlushNow Some I by simp
      next
        case False
        let ?s0 = "(cancel t s)\<lparr>pending := None, flushGuard := True\<rparr>"
        from run FlushNow Some False
        consider e where "run P n RunLoop ?s0 = Some (Inl e, s')"
          | v s1 where "run P n RunLoop ?s0 = Some (Inr v, s1)" "s' = s1\<lparr>flushGuard := False\<rparr>"
          by (auto simp: andThen_Some)
        then show ?thesis
        proof cases
          case 1
          have "loops \<Longrightarrow> I ?s0 \<Longrightarrow> I s'" by (rule IH[OF 1]) auto
          from flush[OF I okc Some False 1 this] show ?thesis by simp
        next
          case 2
          have "loops \<Longrightarrow> I ?s0 \<Longrightarrow> I s1" by (rule IH[OF 2(1)]) auto
          from flush[OF I okc Some False 2(1) this] show ?thesis using 2(2) by simp
        qed
      qed
    qed
  next
    case RunLoop
    have l: loops and pn: "pending s = None" using ok RunLoop by auto
    have "s\<lparr>pending := None\<rparr> = s" using pn by (cases s) simp
    then have I1: "I (s\<lparr>pending := None\<rparr>)" using I by simp
    show ?thesis
    proof (cases "messageQueue s = []")
      case True
      then show ?thesis using run RunLoop I1 by simp
    next
      case False
      have I2: "I (addLast None None (s\<lparr>pending := None\<rparr>))"
        using sentinel[OF l I1] False by simp
      from run RunLoop False
      have "run P n (MessageLoop (nextRef s)) (addLast None None (s\<lparr>pending := None\<rparr>)) = Some (r, s')"
        by (simp add: Let_def)
      then show ?thesis by (rule IH[OF _ I2]) (use l in auto)
    qed
  next
    case (MessageLoop sen)
    have l: loops using ok MessageLoop by simp
    show ?thesis
    proof (cases "messageQueue s")
      case Nil
      then show ?thesis using run MessageLoop I by simp
    next
      case (Cons p rest)
      let ?s1 = "logEvent (Dequeued p) (s\<lparr>messageQueue := rest\<rparr>)"
      have I1: "I ?s1" and oks: "\<And>h m. handler p = Some h \<Longrightarrow> msg p = Some m \<Longrightarrow> oks h m"
        using dequeue[OF l I Cons] by auto
      have again: "\<And>s1 x. I s1 \<Longrightarrow> run P n (MessageLoop sen) s1 = Some (x, s') \<Longrightarrow> I s'"
        using IH l by force
      show ?thesis
      proof (cases "ref p = sen")
        case True
        then show ?thesis using run MessageLoop Cons I1 by (simp add: Let_def)
      next
        case False
        show ?thesis
        proof (cases "handler p")
          case None
          then show ?thesis using run MessageLoop Cons False I1 again by (simp add: Let_def)
        next
          case (Some h)
          note h = Some
          show ?thesis
          proof (cases "msg p")
            case None
            then show ?thesis using run MessageLoop Cons False h I1 again by (simp add: Let_def)
          next
            case (Some m)
            from run MessageLoop Cons False h Some
            consider e where "run P n (SendMessage h m) ?s1 = Some (Inl e, s')"
              | v s2 where "run P n (SendMessage h m) ?s1 = Some (Inr v, s2)"
                  "run P n (MessageLoop sen) s2 = Some (r, s')"
              by (auto simp: andThen_Some Let_def)
            then show ?thesis
            proof cases
              case 1
              show ?thesis by (rule IH[OF 1 I1]) (use oks h Some in auto)
            next
              case 2
              have "I s2" by (rule IH[OF 2(1) I1]) (use oks h Some in auto)
              then show ?thesis using again 2(2) by blast
            qed
          qed
        qed
      qed
    qed
  qed
qed


lemma userCalls_I:
  "a \<in> set (calls (hookBody P k h m c)) \<Longrightarrow> a \<in> userCalls P"
  "a \<in> set (calls (processMessage P h m c)) \<Longrightarrow> a \<in> userCalls P"
  "a \<in> set (calls (handleException P x e)) \<Longrightarrow> a \<in> userCalls P"
  by (auto simp: userCalls_def)

lemma run_invariant_flush:
  assumes usercalls: "\<And>c. c \<in> userCalls P \<Longrightarrow> okc c"
    and send_ok: "\<And>h m. okc (Send h m) \<Longrightarrow> oks h m"
    and ev_hook: "\<And>s k h m i. I s \<Longrightarrow> oks h m \<Longrightarrow> hookAt s h i = Some k \<Longrightarrow> I (logEvent (HookCalled k h m) s)"
    and ev_proc: "\<And>s h m. I s \<Longrightarrow> oks h m \<Longrightarrow> I (logEvent (ProcessMessage h m) s)"
    and ev_exn: "\<And>s e. I s \<Longrightarrow> I (logEvent (ExceptionHandled (exceptionHandler s) e) s)"
    and post: "\<And>s h m. I s \<Longrightarrow> okc (Post h m) \<Longrightarrow> I (snd (postMessage P h m s))"
    and install: "\<And>s h k. I s \<Longrightarrow> okc (Install h k) \<Longrightarrow> I (installMessageHook h k s)"
    and remove: "\<And>s h k. I s \<Longrightarrow> okc (Remove h k) \<Longrightarrow> I (removeMessageHook h k s)"
    and clear: "\<And>s h. I s \<Longrightarrow> okc (Clear h) \<Longrightarrow> I (clearData h s)"
    and setexn: "\<And>s x. I s \<Longrightarrow> okc (SetExceptionHandler x) \<Longrightarrow> I (s\<lparr>exceptionHandler := x\<rparr>)"
    and flush: "\<And>s t n r s1. I s \<Longrightarrow> okc Flush \<Longrightarrow> pending s = Some t \<Longrightarrow> \<not> flushGuard s \<Longrightarrow>
        run P n RunLoop ((cancel t s)\<lparr>pending := None, flushGuard := True\<rparr>) = Some (r, s1) \<Longrightarrow>
        (loops \<Longrightarrow> I ((cancel t s)\<lparr>pending := None, flushGuard := True\<rparr>) \<Longrightarrow> I s1) \<Longrightarrow>
        I (case r of Inl e \<Rightarrow> s1 | Inr v \<Rightarrow> s1\<lparr>flushGuard := False\<rparr>)"
    and sentinel: "\<And>s. loops \<Longrightarrow> I s \<Longrightarrow> pending s = None \<Longrightarrow> messageQueue s \<noteq> [] \<Longrightarrow> I (addLast None None s)"
    and dequeue: "\<And>s p rest. loops \<Longrightarrow> I s \<Longrightarrow> messageQueue s = p # rest \<Longrightarrow>
        I (logEvent (Dequeued p) (s\<lparr>messageQueue := rest\<rparr>)) \<and>
        (\<forall>h m. handler p = Some h \<longrightarrow> msg p = Some m \<longrightarrow> oks h m)"
    and run: "run P n c s = Some (r, s')" and inv: "I s" and ok: "permitted okc oks loops s c"
  shows "I s'"
  by (rule run_invariant_aux[where I = I and okc = okc and oks = oks and loops = loops,
        OF _ _ _ send_ok ev_hook ev_proc ev_exn post install remove clear setexn flush
        sentinel dequeue run inv ok])
     (use usercalls userCalls_I in blast)+

lemma run_invariant:
  assumes usercalls: "\<And>c. c \<in> userCalls P \<Longrightarrow> okc c"
    and send_ok: "\<And>h m. okc (Send h m) \<Longrightarrow> oks h m"
    and ev_hook: "\<And>s k h m i. I s \<Longrightarrow> oks h m \<Longrightarrow> hookAt s h i = Some k \<Longrightarrow> I (logEvent (HookCalled k h m) s)"
    and ev_proc: "\<And>s h m. I s \<Longrightarrow> oks h m \<Longrightarrow> I (logEvent (ProcessMessage h m) s)"
    and ev_exn: "\<And>s e. I s \<Longrightarrow> I (logEvent (ExceptionHandled (exceptionHandler s) e) s)"
    and post: "\<And>s h m. I s \<Longrightarrow> okc (Post h m) \<Longrightarrow> I (snd (postMessage P h m s))"
    and install: "\<And>s h k. I s \<Longrightarrow> okc (Install h k) \<Longrightarrow> I (installMessageHook h k s)"
    and remove: "\<And>s h k. I s \<Longrightarrow> okc (Remove h k) \<Longrightarrow> I (removeMessageHook h k s)"
    and clear: "\<And>s h. I s \<Longrightarrow> okc (Clear h) \<Longrightarrow> I (clearData h s)"
    and setexn: "\<And>s x. I s \<Longrightarrow> okc (SetExceptionHandler x) \<Longrightarrow> I (s\<lparr>exceptionHandler := x\<rparr>)"
    and flush_begin: "\<And>s t. I s \<Longrightarrow> okc Flush \<Longrightarrow> pending s = Some t \<Longrightarrow> \<not> flushGuard s \<Longrightarrow>
        flushes \<and> loops \<and> I ((cancel t s)\<lparr>pending := None, flushGuard := True\<rparr>)"
    and flush_end: "\<And>s. flushes \<Longrightarrow> I s \<Longrightarrow> I (s\<lparr>flushGuard := False\<rparr>)"
    and sentinel: "\<And>s. loops \<Longrightarrow> I s \<Longrightarrow> pending s = None \<Longrightarrow> messageQueue s \<noteq> [] \<Longrightarrow> I (addLast None None s)"
    and dequeue: "\<And>s p rest. loops \<Longrightarrow> I s \<Longrightarrow> messageQueue s = p # rest \<Longrightarrow>
        I (logEvent (Dequeued p) (s\<lparr>messageQueue := rest\<rparr>)) \<and>
        (\<forall>h m. handler p = Some h \<longrightarrow> msg p = Some m \<longrightarrow> oks h m)"
    and run: "run P n c s = Some (r, s')" and inv: "I s" and ok: "permitted okc oks loops s c"
  shows "I s'"
proof (rule run_invariant_flush[where I = I and okc = okc and oks = oks and loops = loops,
        OF usercalls send_ok ev_hook ev_proc ev_exn post install remove clear setexn _
        sentinel dequeue run inv ok])
  fix s t n r s1
  assume a: "I s" "okc Flush" "pending s = Some t" "\<not> flushGuard s"
    and inner: "loops \<Longrightarrow> I ((cancel t s)\<lparr>pending := None, flushGuard := True\<rparr>) \<Longrightarrow> I s1"
  from flush_begin[OF a] have f: flushes and "I s1" using inner by auto
  then show "I (case r of Inl e \<Rightarrow> s1 | Inr v \<Rightarrow> s1\<lparr>flushGuard := False\<rparr>)"
    using flush_end by (cases r) auto
qed


section \<open>Posting and conflation\<close>

lemma twoPosted_eq:
  "twoPosted = (initial exampleMsg)\<lparr>pending := Some 0,
     messageQueue := [\<lparr>ref = 0, handler = Some 7, msg = Some 0\<rparr>,
                      \<lparr>ref = 1, handler = Some 7, msg = Some 1\<rparr>],
     microtasks := [\<lparr>tid = 0, job = RunMessageLoop, rejected = False\<rparr>],
     nextRef := 2, nextTask := 1\<rparr>"
  by (simp add: twoPosted_def postMessage_def exampleMsg_def initial_def enqueueMessage_def
      addLast_def schedule_def pickyCode_def Let_def)

text \<open>
  C2: the first queued entry that a posted conflatable message may be conflated with
  is to decide: when its \<^verbatim>\<open>conflate\<close> declines, the message is appended to the
  queue, as the documentation of \<^verbatim>\<open>conflate\<close> also says. The code does not do this.
  With the message objects 0 and 1 queued for the handler 7 (one conflatable type,
  payloads 0 and 1) the object 2 is posted to the same handler. The first entry it
  may be conflated with is the one of the object 0, whose \<^verbatim>\<open>conflate\<close> declines; the
  scan goes on, the object 1 absorbs the message, and nothing is appended: the queue
  is as it was, and only the object 1 has changed.
\<close>

theorem postMessage_absorbs_after_decline:
  "messageQueue twoPosted =
     [\<lparr>ref = 0, handler = Some 7, msg = Some 0\<rparr>, \<lparr>ref = 1, handler = Some 7, msg = Some 1\<rparr>] \<and>
   isConflatable (messages twoPosted 2) \<and>
   find (conflatableWith (messages twoPosted) 7 2) (messageQueue twoPosted)
     = Some \<lparr>ref = 0, handler = Some 7, msg = Some 0\<rparr> \<and>
   conflate pickyCode 0 2 (messages twoPosted) = (Returns False, messages twoPosted) \<and>
   postMessage pickyCode 7 2 twoPosted =
     (Inr True, twoPosted\<lparr>messages := (messages twoPosted)
        (1 := \<lparr>mtype = ''update'', isConflatable = True, payload = 3\<rparr>)\<rparr>)"
  by (simp add: twoPosted_eq postMessage_def conflatableWith_def exampleMsg_def pickyCode_def
      initial_def Let_def numeral_3_eq_3)

text \<open>
  One message object queued twice: when the object 0 is posted again while it is
  queued, it is offered to itself; \<^verbatim>\<open>conflate\<close> changes it and declines, and the new
  entry holds the same, changed object.
\<close>

lemma postMessage_same_object:
  "postMessage countingCode 7 0 (snd (postMessage countingCode 7 0 (initial exampleMsg))) =
     (Inr True, (initial exampleMsg)\<lparr>pending := Some 0,
        messageQueue := [\<lparr>ref = 0, handler = Some 7, msg = Some 0\<rparr>,
                         \<lparr>ref = 1, handler = Some 7, msg = Some 0\<rparr>],
        microtasks := [\<lparr>tid = 0, job = RunMessageLoop, rejected = False\<rparr>],
        nextRef := 2, nextTask := 1,
        messages := exampleMsg(0 := \<lparr>mtype = ''update'', isConflatable = True, payload = 1\<rparr>)\<rparr>)"
  by (simp add: postMessage_def exampleMsg_def initial_def enqueueMessage_def
      addLast_def schedule_def countingCode_def pickyCode_def Let_def)

text \<open>An exception of \<^verbatim>\<open>conflate\<close> leaves \<^verbatim>\<open>postMessage\<close>, and nothing is appended.\<close>

lemma postMessage_conflate_throws:
  "postMessage throwingCode 7 2 twoPosted = (Inl (UserError 9), twoPosted)"
  by (simp add: twoPosted_eq postMessage_def exampleMsg_def throwingCode_def pickyCode_def
      initial_def Let_def)


section \<open>Deliveries by hooks and handlers that make no engine call\<close>

lemma log_append_nil [simp]: "s\<lparr>log := log s @ []\<rparr> = s"
  by (cases s) simp

lemma callExceptionHandler_tame:
  assumes "tame P (exceptionHandler s)"
  shows "run P (Suc (Suc n)) (CallExceptionHandler e) s =
     Some (Inr True, logEvent (ExceptionHandled (exceptionHandler s) e) s)"
proof (cases "exceptionHandler s")
  case ConsoleError
  then show ?thesis by simp
next
  case (CustomHandler y)
  then have "calls (handleException P y e) = []" and "\<exists>b. ending (handleException P y e) = Returns b"
    using assms by (auto simp: tame_def)
  then show ?thesis using CustomHandler by (auto simp: andThen_def)
qed

lemma invokeHook_engineFree:
  assumes "calls (hookBody P k h m c) = []"
    and "contained P (exceptionHandler s) (ending (hookBody P k h m c))"
    and "messages s m = c"
  shows "run P (Suc (Suc (Suc n))) (InvokeHook k h m) s =
     Some (Inr (verdict (ending (hookBody P k h m c))),
           s\<lparr>log := log s @ HookCalled k h m # faults (exceptionHandler s) (ending (hookBody P k h m c))\<rparr>)"
proof (cases "ending (hookBody P k h m c)")
  case (Returns b)
  then show ?thesis using assms(1,3)
    by (simp add: tryCatch_def verdict_def faults_def logEvent_def)
next
  case (Throws e)
  have "tame P (exceptionHandler (logEvent (HookCalled k h m) s))"
    using assms(2) Throws by (simp add: logEvent_def contained_def)
  from callExceptionHandler_tame[OF this, of n e]
  show ?thesis using assms(1,3) Throws
    by (simp add: tryCatch_def andThen_def verdict_def faults_def logEvent_def)
qed

lemma invokeHandler_engineFree:
  assumes "calls (processMessage P h m c) = []"
    and "contained P (exceptionHandler s) (ending (processMessage P h m c))"
    and "messages s m = c"
  shows "run P (Suc (Suc (Suc n))) (InvokeHandler h m) s =
     Some (Inr True,
           s\<lparr>log := log s @ ProcessMessage h m # faults (exceptionHandler s) (ending (processMessage P h m c))\<rparr>)"
proof (cases "ending (processMessage P h m c)")
  case (Returns b)
  then show ?thesis using assms(1,3)
    by (simp add: tryCatch_def andThen_def faults_def logEvent_def)
next
  case (Throws e)
  have "tame P (exceptionHandler (logEvent (ProcessMessage h m) s))"
    using assms(2) Throws by (simp add: logEvent_def contained_def)
  from callExceptionHandler_tame[OF this, of n e]
  show ?thesis using assms(1,3) Throws
    by (simp add: tryCatch_def andThen_def faults_def logEvent_def)
qed

lemma everyRetro_engineFree:
  assumes "messageHooks s h = Some hs" and "i \<le> length hs" and "j \<le> i"
    and "\<forall>k. Some k \<in> set (drop j (take i hs)) \<longrightarrow>
           calls (hookBody P k h m c) = [] \<and> contained P x (ending (hookBody P k h m c))"
    and "exceptionHandler s = x"
    and "i - j + 3 \<le> n"
    and "messages s m = c"
  shows "run P n (EveryRetro i h m) s =
     (if chainPasses P h m c (rev (drop j (take i hs)))
      then run P (n - (i - j)) (EveryRetro j h m)
             (s\<lparr>log := log s @ chainEvents P (exceptionHandler s) h m c (rev (drop j (take i hs)))\<rparr>)
      else Some (Inr False,
             s\<lparr>log := log s @ chainEvents P (exceptionHandler s) h m c (rev (drop j (take i hs)))\<rparr>))"
  using assms
proof (induction "i - j" arbitrary: i n s)
  case 0
  then show ?case by simp
next
  case (Suc d)
  then obtain i' where i: "i = Suc i'" by (cases i) auto
  from Suc.prems(6) Suc.hyps(2) obtain n' where n: "n = Suc n'" by (cases n) auto
  have i'len: "i' < length hs" and ji': "j \<le> i'" and d: "d = i' - j"
    using Suc.prems Suc.hyps i by auto
  have seg: "rev (drop j (take i hs)) = (hs ! i') # rev (drop j (take i' hs))"
    using i'len ji' i by (simp add: take_Suc_conv_app_nth)
  have at: "hookAt s h i' = hs ! i'" using Suc.prems(1) i'len by (simp add: hookAt_def)
  have sub: "\<forall>k. Some k \<in> set (drop j (take i' hs)) \<longrightarrow>
      calls (hookBody P k h m c) = [] \<and> contained P x (ending (hookBody P k h m c))"
    using Suc.prems(4) i'len i by (auto simp: take_Suc_conv_app_nth)
  have fuel: "i' - j + 3 \<le> n'" using Suc.prems(6) i n ji' by auto
  have nn: "n' - (i' - j) = n - (i - j)" using i n ji' by auto
  show ?case
  proof (cases "hs ! i'")
    case None
    have "run P n (EveryRetro i h m) s = run P n' (EveryRetro i' h m) s"
      using i n at None by simp
    also note Suc.hyps(1)[OF d Suc.prems(1) _ ji' sub Suc.prems(5) fuel Suc.prems(7)]
    finally show ?thesis using i'len seg None nn by simp
  next
    case (Some k)
    have ef: "calls (hookBody P k h m c) = []"
      and ct: "contained P (exceptionHandler s) (ending (hookBody P k h m c))"
      using Suc.prems(4,5) i'len i ji' Some by (auto simp: take_Suc_conv_app_nth)
    have "3 \<le> n'" using fuel by arith
    then obtain n'' where n'': "n' = Suc (Suc (Suc n''))"
      by (auto simp: numeral_3_eq_3 Suc_le_eq dest!: less_imp_Suc_add)
    let ?s1 = "s\<lparr>log := log s @ HookCalled k h m # faults (exceptionHandler s) (ending (hookBody P k h m c))\<rparr>"
    have hook: "run P n' (InvokeHook k h m) s = Some (Inr (verdict (ending (hookBody P k h m c))), ?s1)"
      unfolding n'' by (rule invokeHook_engineFree[OF ef ct Suc.prems(7)])
    show ?thesis
    proof (cases "verdict (ending (hookBody P k h m c))")
      case False
      then show ?thesis using i n at Some hook seg by (simp add: andThen_def)
    next
      case True
      have "run P n (EveryRetro i h m) s = run P n' (EveryRetro i' h m) ?s1"
        using i n at Some hook True by (simp add: andThen_def)
      also have "\<dots> = (if chainPasses P h m c (rev (drop j (take i' hs)))
          then run P (n' - (i' - j)) (EveryRetro j h m)
             (?s1\<lparr>log := log ?s1 @ chainEvents P (exceptionHandler ?s1) h m c (rev (drop j (take i' hs)))\<rparr>)
          else Some (Inr False,
             ?s1\<lparr>log := log ?s1 @ chainEvents P (exceptionHandler ?s1) h m c (rev (drop j (take i' hs)))\<rparr>))"
        by (rule Suc.hyps(1)[OF d _ _ ji' sub _ fuel]) (use Suc.prems i'len in auto)
      finally show ?thesis using seg Some True nn by simp
    qed
  qed
qed

lemma sendMessage_engineFree:
  assumes hooks: "\<forall>k. Some k \<in> set (hooksOf s h) \<longrightarrow>
        calls (hookBody P k h m c) = [] \<and> contained P (exceptionHandler s) (ending (hookBody P k h m c))"
    and handler: "calls (processMessage P h m c) = []"
    and tame: "contained P (exceptionHandler s) (ending (processMessage P h m c))"
    and fuel: "length (hooksOf s h) + 5 \<le> n"
    and msg: "messages s m = c"
  shows "run P n (SendMessage h m) s =
     Some (Inr True, s\<lparr>log := log s @ delivery P (exceptionHandler s) h m c (rev (hooksOf s h))\<rparr>)"
proof -
  have "4 \<le> n" using fuel by arith
  then obtain n1 where n: "n = Suc (Suc (Suc (Suc n1)))"
    by (auto simp: eval_nat_numeral Suc_le_eq dest!: less_imp_Suc_add)
  have direct: "run P (Suc (Suc (Suc n1))) (InvokeHandler h m) s =
       Some (Inr True, s\<lparr>log := log s @ ProcessMessage h m # faults (exceptionHandler s) (ending (processMessage P h m c))\<rparr>)"
    by (rule invokeHandler_engineFree[OF handler tame msg])
  show ?thesis
  proof (cases "messageHooks s h")
    case None
    then show ?thesis using n direct by (simp add: hooksOf_def delivery_def)
  next
    case (Some hs)
    then have hs: "hooksOf s h = hs" by (simp add: hooksOf_def)
    show ?thesis
    proof (cases "length hs = 0")
      case True
      then show ?thesis using n direct Some hs by (simp add: delivery_def)
    next
      case False
      let ?seg = "rev hs"
      let ?s1 = "s\<lparr>log := log s @ chainEvents P (exceptionHandler s) h m c ?seg\<rparr>"
      have fuel1: "length hs - 0 + 3 \<le> Suc (Suc (Suc n1))" using fuel n hs by simp
      have ev: "run P (Suc (Suc (Suc n1))) (EveryRetro (length hs) h m) s =
          (if chainPasses P h m c ?seg
           then run P (Suc (Suc (Suc n1)) - (length hs - 0)) (EveryRetro 0 h m) ?s1
           else Some (Inr False, ?s1))"
        using everyRetro_engineFree[where j = 0 and x = "exceptionHandler s", OF Some _ _ _ _ fuel1 msg] hooks hs by simp
      have "0 < Suc (Suc (Suc n1)) - (length hs - 0)" using fuel n hs by auto
      then obtain n2 where n2: "Suc (Suc (Suc n1)) - (length hs - 0) = Suc n2"
        by (auto dest!: less_imp_Suc_add)
      have ev': "run P (Suc (Suc (Suc n1))) (EveryRetro (length hs) h m) s =
          Some (Inr (chainPasses P h m c ?seg), ?s1)"
        using ev n2 by simp
      have "contained P (exceptionHandler ?s1) (ending (processMessage P h m c))" using tame by simp
      moreover have "messages ?s1 m = c" using msg by simp
      ultimately have "run P (Suc (Suc (Suc n1))) (InvokeHandler h m) ?s1 =
          Some (Inr True, ?s1\<lparr>log := log ?s1 @ ProcessMessage h m #
             faults (exceptionHandler ?s1) (ending (processMessage P h m c))\<rparr>)"
        by (rule invokeHandler_engineFree[OF handler])
      then
      show ?thesis using n Some False ev' hs
        by (simp add: andThen_def delivery_def)
    qed
  qed
qed


lemma chain_all_pass:
  assumes "\<forall>k. Some k \<in> set ks \<longrightarrow> (\<exists>b. ending (hookBody P k h m c) = Returns b)"
    and "\<forall>k. Some k \<in> set ks \<longrightarrow> ending (hookBody P k h m c) \<noteq> Returns False"
  shows "chainPasses P h m c ks \<and> chainEvents P x h m c ks = map (\<lambda>k. HookCalled k h m) (liveHooks ks)"
  using assms
proof (induction ks rule: liveHooks.induct)
  case 1
  then show ?case by simp
next
  case (2 ks)
  then show ?case by simp
next
  case (3 k ks)
  from "3.prems" obtain b where "ending (hookBody P k h m c) = Returns b" "b" by (cases "ending (hookBody P k h m c)") auto
  then show ?case using "3.IH" "3.prems" by (simp add: verdict_def faults_def)
qed

lemma chain_veto:
  assumes "\<forall>k. Some k \<in> set ks \<longrightarrow> (\<exists>b. ending (hookBody P k h m c) = Returns b)"
    and "\<not> (\<forall>k. Some k \<in> set ks \<longrightarrow> ending (hookBody P k h m c) \<noteq> Returns False)"
  shows "\<not> chainPasses P h m c ks \<and>
     (\<exists>newer k older. ks = newer @ Some k # older \<and>
        ending (hookBody P k h m c) = Returns False \<and>
        (\<forall>k'. Some k' \<in> set newer \<longrightarrow> ending (hookBody P k' h m c) \<noteq> Returns False) \<and>
        chainEvents P x h m c ks = map (\<lambda>k. HookCalled k h m) (liveHooks newer) @ [HookCalled k h m])"
  using assms
proof (induction ks rule: liveHooks.induct)
  case 1
  then show ?case by simp
next
  case (2 ks)
  from "2.IH" "2.prems" have "\<not> chainPasses P h m c ks \<and>
     (\<exists>newer k older. ks = newer @ Some k # older \<and>
        ending (hookBody P k h m c) = Returns False \<and>
        (\<forall>k'. Some k' \<in> set newer \<longrightarrow> ending (hookBody P k' h m c) \<noteq> Returns False) \<and>
        chainEvents P x h m c ks = map (\<lambda>k. HookCalled k h m) (liveHooks newer) @ [HookCalled k h m])"
    by simp
  then obtain newer k older where "ks = newer @ Some k # older"
        "ending (hookBody P k h m c) = Returns False"
        "\<forall>k'. Some k' \<in> set newer \<longrightarrow> ending (hookBody P k' h m c) \<noteq> Returns False"
        "chainEvents P x h m c ks = map (\<lambda>k. HookCalled k h m) (liveHooks newer) @ [HookCalled k h m]"
        and np: "\<not> chainPasses P h m c ks"
    by blast
  then have "None # ks = (None # newer) @ Some k # older \<and>
        ending (hookBody P k h m c) = Returns False \<and>
        (\<forall>k'. Some k' \<in> set (None # newer) \<longrightarrow> ending (hookBody P k' h m c) \<noteq> Returns False) \<and>
        chainEvents P x h m c (None # ks) = map (\<lambda>k. HookCalled k h m) (liveHooks (None # newer)) @ [HookCalled k h m]"
    by simp
  then show ?case using np by (metis chainPasses.simps(2))
next
  case (3 k0 ks)
  show ?case
  proof (cases "ending (hookBody P k0 h m c) = Returns False")
    case True
    then have "Some k0 # ks = [] @ Some k0 # ks \<and>
        ending (hookBody P k0 h m c) = Returns False \<and>
        (\<forall>k'. Some k' \<in> set [] \<longrightarrow> ending (hookBody P k' h m c) \<noteq> Returns False) \<and>
        chainEvents P x h m c (Some k0 # ks) = map (\<lambda>k. HookCalled k h m) (liveHooks []) @ [HookCalled k0 h m]"
      by (simp add: verdict_def faults_def)
    moreover have "\<not> chainPasses P h m c (Some k0 # ks)" using True by (simp add: verdict_def)
    ultimately show ?thesis by blast
  next
    case False
    moreover from "3.prems"(1) obtain b where b: "ending (hookBody P k0 h m c) = Returns b" by auto
    ultimately have b: "ending (hookBody P k0 h m c) = Returns True" by simp
    have "\<not> chainPasses P h m c ks \<and>
     (\<exists>newer k older. ks = newer @ Some k # older \<and>
        ending (hookBody P k h m c) = Returns False \<and>
        (\<forall>k'. Some k' \<in> set newer \<longrightarrow> ending (hookBody P k' h m c) \<noteq> Returns False) \<and>
        chainEvents P x h m c ks = map (\<lambda>k. HookCalled k h m) (liveHooks newer) @ [HookCalled k h m])"
      using "3.IH" "3.prems" False b by (auto simp: verdict_def)
    then obtain newer k older where "ks = newer @ Some k # older"
        "ending (hookBody P k h m c) = Returns False"
        "\<forall>k'. Some k' \<in> set newer \<longrightarrow> ending (hookBody P k' h m c) \<noteq> Returns False"
        "chainEvents P x h m c ks = map (\<lambda>k. HookCalled k h m) (liveHooks newer) @ [HookCalled k h m]"
        and np: "\<not> chainPasses P h m c ks"
      by blast
    then have "Some k0 # ks = (Some k0 # newer) @ Some k # older \<and>
        ending (hookBody P k h m c) = Returns False \<and>
        (\<forall>k'. Some k' \<in> set (Some k0 # newer) \<longrightarrow> ending (hookBody P k' h m c) \<noteq> Returns False) \<and>
        chainEvents P x h m c (Some k0 # ks) = map (\<lambda>k. HookCalled k h m) (liveHooks (Some k0 # newer)) @ [HookCalled k h m]"
      using b by (simp add: verdict_def faults_def)
    moreover have "\<not> chainPasses P h m c (Some k0 # ks)" using np by simp
    ultimately show ?thesis by blast
  qed
qed

section \<open>A send, step by step\<close>

lemma invokeHook_answers:
  assumes "run P n (InvokeHook k h m) s = Some (r, t)"
  shows "hookAnswers P k h m s r t"
proof -
  obtain n' where n: "n = Suc n'" using assms by (cases n) auto
  let ?b = "hookBody P k h m (messages s m)"
  let ?s0 = "logEvent (HookCalled k h m) s"
  from assms n
  consider e u where "run P n' (RunBody (calls ?b) (ending ?b)) ?s0 = Some (Inl e, u)"
      "andThen (run P n' (CallExceptionHandler e) u) (\<lambda>_ s2. Some (Inr True, s2)) = Some (r, t)"
    | v where "run P n' (RunBody (calls ?b) (ending ?b)) ?s0 = Some (Inr v, t)" "r = Inr v"
    by (auto simp: tryCatch_Some)
  then show ?thesis
  proof cases
    case 1
    have body: "ends P ?b ?s0 (Inl e) u" using 1(1) by (auto simp: ends_def)
    from 1(2) consider e' where "run P n' (CallExceptionHandler e) u = Some (Inl e', t)" "r = Inl e'"
      | v where "run P n' (CallExceptionHandler e) u = Some (Inr v, t)" "r = Inr True"
      by (auto simp: andThen_Some)
    then show ?thesis
    proof cases
      case 1
      then have "handled P e u (Inl e') t" by (auto simp: handled_def)
      then show ?thesis using body 1(2) by (auto intro: hookAnswers.escapes)
    next
      case 2
      then have "handled P e u (Inr v) t" by (auto simp: handled_def)
      then show ?thesis using body 2(2) by (auto intro: hookAnswers.faulty)
    qed
  next
    case 2
    then have "ends P ?b ?s0 (Inr v) t" by (auto simp: ends_def)
    then show ?thesis using 2(2) by (auto intro: hookAnswers.answers)
  qed
qed

lemma invokeHandler_processes:
  assumes "run P n (InvokeHandler h m) s = Some (r, t)"
  shows "processes P h m s r t"
proof -
  obtain n' where n: "n = Suc n'" using assms by (cases n) auto
  let ?b = "processMessage P h m (messages s m)"
  let ?s0 = "logEvent (ProcessMessage h m) s"
  from assms n
  consider e u where "run P n' (RunBody (calls ?b) (ending ?b)) ?s0 = Some (Inl e, u)"
      "run P n' (CallExceptionHandler e) u = Some (r, t)"
    | v where "run P n' (RunBody (calls ?b) (ending ?b)) ?s0 = Some (Inr v, t)" "r = Inr True"
    by (auto simp: tryCatch_Some andThen_Some)
  then show ?thesis
  proof cases
    case 1
    then have "ends P ?b ?s0 (Inl e) u" "handled P e u r t" by (auto simp: ends_def handled_def)
    then show ?thesis by (rule processes.failed)
  next
    case 2
    then have "ends P ?b ?s0 (Inr v) t" by (auto simp: ends_def)
    then show ?thesis using 2(2) by (auto intro: processes.processed)
  qed
qed

lemma everyRetro_walk:
  "run P n (EveryRetro i h m) s = Some (r, t) \<Longrightarrow> walk P h m i s r t"
proof (induction n arbitrary: i s)
  case 0
  then show ?case by simp
next
  case (Suc n)
  show ?case
  proof (cases i)
    case 0
    then show ?thesis using Suc.prems by (auto intro: walk.walked)
  next
    case (Suc j)
    show ?thesis
    proof (cases "hookAt s h j")
      case None
      then have "run P n (EveryRetro j h m) s = Some (r, t)" using Suc.prems Suc by simp
      then show ?thesis using Suc.IH None Suc by (auto intro: walk.skip)
    next
      case (Some k)
      from Suc.prems Suc Some
      consider e where "run P n (InvokeHook k h m) s = Some (Inl e, t)" "r = Inl e"
        | u where "run P n (InvokeHook k h m) s = Some (Inr False, u)" "r = Inr False" "t = u"
        | u where "run P n (InvokeHook k h m) s = Some (Inr True, u)"
            "run P n (EveryRetro j h m) u = Some (r, t)"
        by (auto simp: andThen_Some split: if_splits)
      then show ?thesis
      proof cases
        case 1
        then show ?thesis using invokeHook_answers[OF 1(1)] Some Suc by (auto intro: walk.abort)
      next
        case 2
        then show ?thesis using invokeHook_answers[OF 2(1)] Some Suc by (auto intro: walk.veto)
      next
        case 3
        from Suc.IH[OF 3(2)] invokeHook_answers[OF 3(1)] Some
        have "walk P h m (Suc j) s r t" by (rule_tac walk.pass)
        then show ?thesis using Suc by simp
      qed
    qed
  qed
qed

lemma sendMessage_sends:
  assumes "run P n (SendMessage h m) s = Some (r, t)"
  shows "sends P h m s r t"
proof -
  obtain n' where n: "n = Suc n'" using assms by (cases n) auto
  have direct: "sends P h m s r t"
    if "hooksOf s h = []" "run P n' (InvokeHandler h m) s = Some (r, t)"
  proof -
    have "walk P h m (length (hooksOf s h)) s (Inr True) s" using that(1) by (auto intro: walk.walked)
    then show ?thesis using invokeHandler_processes[OF that(2)] by (rule sends.delivered)
  qed
  show ?thesis
  proof (cases "messageHooks s h")
    case None
    then show ?thesis using assms n direct by (simp add: hooksOf_def)
  next
    case (Some hs)
    then have hs: "hooksOf s h = hs" by (simp add: hooksOf_def)
    show ?thesis
    proof (cases "length hs = 0")
      case True
      then show ?thesis using assms n Some direct hs by simp
    next
      case False
      from assms n Some False
      consider e where "run P n' (EveryRetro (length hs) h m) s = Some (Inl e, t)" "r = Inl e"
        | "run P n' (EveryRetro (length hs) h m) s = Some (Inr False, t)" "r = Inr True"
        | u where "run P n' (EveryRetro (length hs) h m) s = Some (Inr True, u)"
            "run P n' (InvokeHandler h m) u = Some (r, t)"
        by (auto simp: andThen_Some split: if_splits)
      then show ?thesis
      proof cases
        case 1
        then show ?thesis using everyRetro_walk[OF 1(1)] hs by (auto intro: sends.aborted)
      next
        case 2
        then show ?thesis using everyRetro_walk[OF 2(1)] hs by (auto intro: sends.vetoed)
      next
        case 3
        have "walk P h m (length (hooksOf s h)) s (Inr True) u"
          using everyRetro_walk[OF 3(1)] hs by simp
        then show ?thesis using invokeHandler_processes[OF 3(2)] by (rule sends.delivered)
      qed
    qed
  qed
qed

text \<open>
  C1: a send walks the hook array of the handler from its newest slot to its oldest,
  passing over the empty slots and invoking each hook it finds; the walk ends at the
  first hook that answers false, so that no older hook is invoked, and then
  \<open>processMessage\<close> is not invoked; when the walk yields true (every hook invoked
  answered true, or there is no hook) \<open>processMessage\<close> is invoked once with the
  message. This holds of every send that returns or throws, whatever the hooks and
  the handler do (\<open>sends\<close>). When the hooks and the handler make no engine call and
  return, the send returns, and the calls it makes are all the hooks newest first and
  then \<open>processMessage\<close>, if no hook returns false, and otherwise the hooks newer
  than the first one that returns false, then that one, and no other call.
\<close>

theorem sendMessage_runs_hooks_newest_first:
  "(sendMessage P n h m s = Some (r, t) \<longrightarrow> sends P h m s r t) \<and>
   ((\<forall>k. Some k \<in> set (hooksOf s h) \<longrightarrow>
        calls (hookBody P k h m (messages s m)) = [] \<and>
        (\<exists>b. ending (hookBody P k h m (messages s m)) = Returns b)) \<and>
    calls (processMessage P h m (messages s m)) = [] \<and>
    (\<exists>b. ending (processMessage P h m (messages s m)) = Returns b) \<and>
    length (hooksOf s h) + 5 \<le> n \<longrightarrow>
      (\<exists>evs. sendMessage P n h m s = Some (Inr True, s\<lparr>log := log s @ evs\<rparr>) \<and>
        (if \<forall>k. Some k \<in> set (hooksOf s h) \<longrightarrow> ending (hookBody P k h m (messages s m)) \<noteq> Returns False
         then evs = map (\<lambda>k. HookCalled k h m) (liveHooks (rev (hooksOf s h))) @ [ProcessMessage h m]
         else \<exists>newer k older. rev (hooksOf s h) = newer @ Some k # older \<and>
                ending (hookBody P k h m (messages s m)) = Returns False \<and>
                (\<forall>k'. Some k' \<in> set newer \<longrightarrow> ending (hookBody P k' h m (messages s m)) \<noteq> Returns False) \<and>
                evs = map (\<lambda>k. HookCalled k h m) (liveHooks newer) @ [HookCalled k h m])))"
proof (rule conjI)
  show "sendMessage P n h m s = Some (r, t) \<longrightarrow> sends P h m s r t"
    using sendMessage_sends by blast
next
  let ?c = "messages s m"
  let ?x = "exceptionHandler s"
  let ?ks = "rev (hooksOf s h)"
  have main: "\<exists>evs. sendMessage P n h m s = Some (Inr True, s\<lparr>log := log s @ evs\<rparr>) \<and>
        (if \<forall>k. Some k \<in> set (hooksOf s h) \<longrightarrow> ending (hookBody P k h m ?c) \<noteq> Returns False
         then evs = map (\<lambda>k. HookCalled k h m) (liveHooks ?ks) @ [ProcessMessage h m]
         else \<exists>newer k older. ?ks = newer @ Some k # older \<and>
                ending (hookBody P k h m ?c) = Returns False \<and>
                (\<forall>k'. Some k' \<in> set newer \<longrightarrow> ending (hookBody P k' h m ?c) \<noteq> Returns False) \<and>
                evs = map (\<lambda>k. HookCalled k h m) (liveHooks newer) @ [HookCalled k h m])"
    if hooks: "\<forall>k. Some k \<in> set (hooksOf s h) \<longrightarrow>
        calls (hookBody P k h m ?c) = [] \<and> (\<exists>b. ending (hookBody P k h m ?c) = Returns b)"
      and handler: "calls (processMessage P h m ?c) = []" "\<exists>b. ending (processMessage P h m ?c) = Returns b"
      and fuel: "length (hooksOf s h) + 5 \<le> n"
  proof -
    have run: "sendMessage P n h m s = Some (Inr True, s\<lparr>log := log s @ delivery P ?x h m ?c ?ks\<rparr>)"
      by (rule sendMessage_engineFree) (use hooks handler fuel in \<open>auto simp: contained_def\<close>)
    have ret: "\<forall>k. Some k \<in> set ?ks \<longrightarrow> (\<exists>b. ending (hookBody P k h m ?c) = Returns b)"
      using hooks by simp
    from handler have hf: "faults ?x (ending (processMessage P h m ?c)) = []" by (auto simp: faults_def)
    show ?thesis
    proof (cases "\<forall>k. Some k \<in> set (hooksOf s h) \<longrightarrow> ending (hookBody P k h m ?c) \<noteq> Returns False")
      case True
      then have "\<forall>k. Some k \<in> set ?ks \<longrightarrow> ending (hookBody P k h m ?c) \<noteq> Returns False" by simp
      from chain_all_pass[OF ret this, of ?x]
      have "delivery P ?x h m ?c ?ks = map (\<lambda>k. HookCalled k h m) (liveHooks ?ks) @ [ProcessMessage h m]"
        using hf by (simp add: delivery_def)
      then show ?thesis using run True by simp
    next
      case False
      then have "\<not> (\<forall>k. Some k \<in> set ?ks \<longrightarrow> ending (hookBody P k h m ?c) \<noteq> Returns False)" by simp
      from chain_veto[OF ret this, of ?x]
      obtain newer k older where "?ks = newer @ Some k # older"
          "ending (hookBody P k h m ?c) = Returns False"
          "\<forall>k'. Some k' \<in> set newer \<longrightarrow> ending (hookBody P k' h m ?c) \<noteq> Returns False"
          "chainEvents P ?x h m ?c ?ks = map (\<lambda>k. HookCalled k h m) (liveHooks newer) @ [HookCalled k h m]"
          and np: "\<not> chainPasses P h m ?c ?ks"
        by blast
      moreover have "delivery P ?x h m ?c ?ks = chainEvents P ?x h m ?c ?ks" using np by (simp add: delivery_def)
      ultimately show ?thesis using run False by auto
    qed
  qed
  show "(\<forall>k. Some k \<in> set (hooksOf s h) \<longrightarrow>
        calls (hookBody P k h m (messages s m)) = [] \<and>
        (\<exists>b. ending (hookBody P k h m (messages s m)) = Returns b)) \<and>
    calls (processMessage P h m (messages s m)) = [] \<and>
    (\<exists>b. ending (processMessage P h m (messages s m)) = Returns b) \<and>
    length (hooksOf s h) + 5 \<le> n \<longrightarrow>
      (\<exists>evs. sendMessage P n h m s = Some (Inr True, s\<lparr>log := log s @ evs\<rparr>) \<and>
        (if \<forall>k. Some k \<in> set (hooksOf s h) \<longrightarrow> ending (hookBody P k h m (messages s m)) \<noteq> Returns False
         then evs = map (\<lambda>k. HookCalled k h m) (liveHooks (rev (hooksOf s h))) @ [ProcessMessage h m]
         else \<exists>newer k older. rev (hooksOf s h) = newer @ Some k # older \<and>
                ending (hookBody P k h m (messages s m)) = Returns False \<and>
                (\<forall>k'. Some k' \<in> set newer \<longrightarrow> ending (hookBody P k' h m (messages s m)) \<noteq> Returns False) \<and>
                evs = map (\<lambda>k. HookCalled k h m) (liveHooks newer) @ [HookCalled k h m]))"
    using main by (intro impI) (elim conjE)
qed

lemma hooked_hooks:
  "hooksOf hooked h = (if h = 3 then [Some (HookFunction 0), Some (HookObject 1)] else [])"
  by (simp add: hooked_def installMessageHook_def initial_def hooksOf_def)

lemma threeHooks_hooks:
  "hooksOf threeHooks h =
     (if h = 3 then [Some (HookFunction 0), Some (HookObject 1), Some (HookFunction 2)] else [])"
  by (simp add: threeHooks_def hooked_def installMessageHook_def initial_def hooksOf_def)

lemma threeHooks_messages: "messages threeHooks = plainMessages" "log threeHooks = []"
  by (simp_all add: threeHooks_def hooked_def installMessageHook_def initial_def)

theorem sendMessage_runs_hooks_newest_first_witness:
  "sendMessage guardedCode 8 3 0 threeHooks =
     Some (Inr True, threeHooks\<lparr>log := [HookCalled (HookFunction 2) 3 0, HookCalled (HookObject 1) 3 0,
        HookCalled (HookFunction 0) 3 0, ProcessMessage 3 0]\<rparr>) \<and>
   sendMessage guardedCode 8 3 13 threeHooks =
     Some (Inr True, threeHooks\<lparr>log := [HookCalled (HookFunction 2) 3 13, HookCalled (HookObject 1) 3 13]\<rparr>) \<and>
   sends guardedCode 3 13 threeHooks (Inr True)
     (threeHooks\<lparr>log := [HookCalled (HookFunction 2) 3 13, HookCalled (HookObject 1) 3 13]\<rparr>) \<and>
   (\<exists>newer older. rev (hooksOf threeHooks 3) = newer @ Some (HookObject 1) # older \<and>
      ending (hookBody guardedCode (HookObject 1) 3 13 (messages threeHooks 13)) = Returns False)"
proof -
  have hooks: "\<forall>k. Some k \<in> set (hooksOf threeHooks 3) \<longrightarrow>
        calls (hookBody guardedCode k 3 m (messages threeHooks m)) = [] \<and>
        (\<exists>b. ending (hookBody guardedCode k 3 m (messages threeHooks m)) = Returns b)" for m
    by (auto simp: threeHooks_hooks hookBody_def guardedCode_def quiet_def)
  have handler: "calls (processMessage guardedCode 3 m (messages threeHooks m)) = [] \<and>
      (\<exists>b. ending (processMessage guardedCode 3 m (messages threeHooks m)) = Returns b)" for m
    by (auto simp: guardedCode_def quiet_def)
  have fuel: "length (hooksOf threeHooks 3) + 5 \<le> 8" by (simp add: threeHooks_hooks)
  have pass: "\<forall>k. Some k \<in> set (hooksOf threeHooks 3) \<longrightarrow>
      ending (hookBody guardedCode k 3 0 (messages threeHooks 0)) \<noteq> Returns False"
    by (auto simp: threeHooks_hooks threeHooks_messages hookBody_def guardedCode_def quiet_def
        plainMsg_def plainMessages_def)
  have veto: "\<not> (\<forall>k. Some k \<in> set (hooksOf threeHooks 3) \<longrightarrow>
      ending (hookBody guardedCode k 3 13 (messages threeHooks 13)) \<noteq> Returns False)"
    by (auto simp: threeHooks_hooks threeHooks_messages hookBody_def guardedCode_def quiet_def
        plainMsg_def plainMessages_def)
  have prem: "(\<forall>k. Some k \<in> set (hooksOf threeHooks 3) \<longrightarrow>
        calls (hookBody guardedCode k 3 m (messages threeHooks m)) = [] \<and>
        (\<exists>b. ending (hookBody guardedCode k 3 m (messages threeHooks m)) = Returns b)) \<and>
      calls (processMessage guardedCode 3 m (messages threeHooks m)) = [] \<and>
      (\<exists>b. ending (processMessage guardedCode 3 m (messages threeHooks m)) = Returns b) \<and>
      length (hooksOf threeHooks 3) + 5 \<le> 8" for m
    using hooks[of m] handler[of m] fuel by blast
  note passing = sendMessage_runs_hooks_newest_first[of guardedCode 8 3 0 threeHooks,
      THEN conjunct2, THEN mp, OF prem]
  note vetoing = sendMessage_runs_hooks_newest_first[of guardedCode 8 3 13 threeHooks,
      THEN conjunct2, THEN mp, OF prem]
  from passing pass
  have A: "sendMessage guardedCode 8 3 0 threeHooks =
     Some (Inr True, threeHooks\<lparr>log := [HookCalled (HookFunction 2) 3 0, HookCalled (HookObject 1) 3 0,
        HookCalled (HookFunction 0) 3 0, ProcessMessage 3 0]\<rparr>)"
    by (auto simp: threeHooks_hooks threeHooks_messages)
  from vetoing veto
  obtain evs newer k older where run: "sendMessage guardedCode 8 3 13 threeHooks =
        Some (Inr True, threeHooks\<lparr>log := log threeHooks @ evs\<rparr>)"
    and split: "rev (hooksOf threeHooks 3) = newer @ Some k # older"
    and k: "ending (hookBody guardedCode k 3 13 (messages threeHooks 13)) = Returns False"
    and newer: "\<forall>k'. Some k' \<in> set newer \<longrightarrow>
        ending (hookBody guardedCode k' 3 13 (messages threeHooks 13)) \<noteq> Returns False"
    and evs: "evs = map (\<lambda>k. HookCalled k 3 13) (liveHooks newer) @ [HookCalled k 3 13]"
    by (simp only: if_False) blast
  have "Some k \<in> set (hooksOf threeHooks 3)"
    using split by (metis in_set_conv_decomp set_rev)
  then have k1: "k = HookObject 1" using k
    by (auto simp: threeHooks_hooks hookBody_def guardedCode_def quiet_def)
  then have "newer = [Some (HookFunction 2)]" using split
    by (auto simp: threeHooks_hooks append_eq_Cons_conv Cons_eq_append_conv)
  then have B: "sendMessage guardedCode 8 3 13 threeHooks =
     Some (Inr True, threeHooks\<lparr>log := [HookCalled (HookFunction 2) 3 13, HookCalled (HookObject 1) 3 13]\<rparr>)"
    using run evs k1 by (simp add: threeHooks_messages)
  from sendMessage_runs_hooks_newest_first[of guardedCode 8 3 13 threeHooks, THEN conjunct1] B
  have C: "sends guardedCode 3 13 threeHooks (Inr True)
     (threeHooks\<lparr>log := [HookCalled (HookFunction 2) 3 13, HookCalled (HookObject 1) 3 13]\<rparr>)"
    by blast
  show ?thesis using A B C split k k1 by blast
qed


section \<open>Exceptions\<close>

lemma tame_exceptionsHandled:
  assumes "\<forall>y. tame P (CustomHandler y)"
  shows "exceptionsHandled P"
  unfolding exceptionsHandled_def
proof (intro allI)
  fix n err s e s'
  show "run P n (CallExceptionHandler err) s \<noteq> Some (Inl e, s')"
  proof (cases n)
    case 0
    then show ?thesis by simp
  next
    case (Suc n')
    show ?thesis
    proof (cases "exceptionHandler s")
      case ConsoleError
      then show ?thesis using Suc by simp
    next
      case (CustomHandler y)
      then have "calls (handleException P y err) = []" "\<exists>b. ending (handleException P y err) = Returns b"
        using assms by (auto simp: tame_def)
      then show ?thesis using Suc CustomHandler by (cases n') (auto simp: andThen_Some)
    qed
  qed
qed

lemma callExceptionHandler_no_escape:
  assumes "exceptionsHandled P"
  shows "run P n (CallExceptionHandler err) s \<noteq> Some (Inl e, s')"
  using assms by (simp add: exceptionsHandled_def)

lemma invokeHook_no_escape:
  assumes "exceptionsHandled P"
  shows "run P n (InvokeHook k h m) s \<noteq> Some (Inl e, s')"
  using callExceptionHandler_no_escape[OF assms]
  by (cases n) (auto simp: tryCatch_Some andThen_Some)

lemma invokeHandler_no_escape:
  assumes "exceptionsHandled P"
  shows "run P n (InvokeHandler h m) s \<noteq> Some (Inl e, s')"
  using callExceptionHandler_no_escape[OF assms]
  by (cases n) (auto simp: tryCatch_Some andThen_Some)

lemma everyRetro_no_escape:
  assumes "exceptionsHandled P"
  shows "run P n (EveryRetro i h m) s \<noteq> Some (Inl e, s')"
proof (induction n arbitrary: i s)
  case 0
  then show ?case by simp
next
  case (Suc n)
  show ?case
  proof (cases i)
    case 0
    then show ?thesis by simp
  next
    case (Suc j)
    then show ?thesis using Suc.IH invokeHook_no_escape[OF assms]
      by (auto simp: andThen_Some split: option.splits)
  qed
qed

lemma sendMessage_no_escape:
  assumes "exceptionsHandled P"
  shows "run P n (SendMessage h m) s \<noteq> Some (Inl e, s')"
  using everyRetro_no_escape[OF assms] invokeHandler_no_escape[OF assms]
  by (cases n) (auto simp: andThen_Some split: option.splits)


lemma chainEvents_all_called:
  assumes "\<forall>k. Some k \<in> set ks \<longrightarrow> ending (hookBody P k h m c) \<noteq> Returns False"
  shows "chainPasses P h m c ks \<and> (\<forall>k. Some k \<in> set ks \<longrightarrow> HookCalled k h m \<in> set (chainEvents P x h m c ks))"
  using assms
proof (induction ks rule: liveHooks.induct)
  case 1
  then show ?case by simp
next
  case (2 ks)
  then show ?case by simp
next
  case (3 k ks)
  have v: "verdict (ending (hookBody P k h m c))"
    using "3.prems" by (cases "ending (hookBody P k h m c)") (auto simp: verdict_def)
  then show ?case using "3.IH" "3.prems" by auto
qed

text \<open>
  C4, amended: when the exception handlers make no engine call and return,
  no exception leaves \<^verbatim>\<open>sendMessage\<close>, whatever hooks and handlers do. An
  exception of a hook is passed to the current exception handler and the hook counts
  as having returned true; an exception of \<open>processMessage\<close> is passed to the
  exception handler likewise. When no hook returns false, all hooks and the handler
  are called although some of them throw, and the state after the call differs from
  the state before only by the log, so that a following send to another handler
  makes the delivery it would have made before.
\<close>

theorem exceptions_are_routed_not_propagated:
  assumes tame: "\<forall>y. tame P (CustomHandler y)"
  shows "sendMessage P n h m s \<noteq> Some (Inl e, s') \<and>
    (calls (hookBody P k h m (messages s m)) = [] \<and> ending (hookBody P k h m (messages s m)) = Throws err \<longrightarrow>
       invokeHook P (Suc (Suc (Suc n))) k h m s =
         Some (Inr True, s\<lparr>log := log s @ [HookCalled k h m, ExceptionHandled (exceptionHandler s) err]\<rparr>)) \<and>
    (calls (processMessage P h m (messages s m)) = [] \<and> ending (processMessage P h m (messages s m)) = Throws err \<longrightarrow>
       invokeHandler P (Suc (Suc (Suc n))) h m s =
         Some (Inr True, s\<lparr>log := log s @ [ProcessMessage h m, ExceptionHandled (exceptionHandler s) err]\<rparr>)) \<and>
    ((\<forall>k. Some k \<in> set (hooksOf s h) \<longrightarrow>
          calls (hookBody P k h m (messages s m)) = [] \<and> ending (hookBody P k h m (messages s m)) \<noteq> Returns False) \<and>
      calls (processMessage P h m (messages s m)) = [] \<and> length (hooksOf s h) + 5 \<le> n \<longrightarrow>
       (\<exists>evs. sendMessage P n h m s = Some (Inr True, s\<lparr>log := log s @ evs\<rparr>) \<and>
          (\<forall>k. Some k \<in> set (hooksOf s h) \<longrightarrow> HookCalled k h m \<in> set evs) \<and>
          ProcessMessage h m \<in> set evs \<and>
          ((\<forall>k. Some k \<in> set (hooksOf s h2) \<longrightarrow> calls (hookBody P k h2 m2 (messages s m2)) = []) \<and>
            calls (processMessage P h2 m2 (messages s m2)) = [] \<and> length (hooksOf s h2) + 5 \<le> n2 \<longrightarrow>
             sendMessage P n2 h2 m2 (s\<lparr>log := log s @ evs\<rparr>) =
               Some (Inr True, s\<lparr>log := log s @ evs @
                  delivery P (exceptionHandler s) h2 m2 (messages s m2) (rev (hooksOf s h2))\<rparr>))))"
proof -
  have tm: "tame P x" for x
    using tame by (cases x) (simp_all add: tame_def)
  have ct: "contained P x en" for x en using tm by (simp add: contained_def)
  have a: "sendMessage P n h m s \<noteq> Some (Inl e, s')"
    by (rule sendMessage_no_escape[OF tame_exceptionsHandled[OF tame]])
  have b: "calls (hookBody P k h m (messages s m)) = [] \<and> ending (hookBody P k h m (messages s m)) = Throws err \<longrightarrow>
       invokeHook P (Suc (Suc (Suc n))) k h m s =
         Some (Inr True, s\<lparr>log := log s @ [HookCalled k h m, ExceptionHandled (exceptionHandler s) err]\<rparr>)"
    using invokeHook_engineFree[where P = P and k = k and h = h and m = m and s = s and n = n
        and c = "messages s m"] ct by (auto simp: verdict_def faults_def)
  have c: "calls (processMessage P h m (messages s m)) = [] \<and> ending (processMessage P h m (messages s m)) = Throws err \<longrightarrow>
       invokeHandler P (Suc (Suc (Suc n))) h m s =
         Some (Inr True, s\<lparr>log := log s @ [ProcessMessage h m, ExceptionHandled (exceptionHandler s) err]\<rparr>)"
    using invokeHandler_engineFree[where P = P and h = h and m = m and s = s and n = n
        and c = "messages s m"] ct by (auto simp: faults_def)
  have d: "(\<exists>evs. sendMessage P n h m s = Some (Inr True, s\<lparr>log := log s @ evs\<rparr>) \<and>
          (\<forall>k. Some k \<in> set (hooksOf s h) \<longrightarrow> HookCalled k h m \<in> set evs) \<and>
          ProcessMessage h m \<in> set evs \<and>
          ((\<forall>k. Some k \<in> set (hooksOf s h2) \<longrightarrow> calls (hookBody P k h2 m2 (messages s m2)) = []) \<and>
            calls (processMessage P h2 m2 (messages s m2)) = [] \<and> length (hooksOf s h2) + 5 \<le> n2 \<longrightarrow>
             sendMessage P n2 h2 m2 (s\<lparr>log := log s @ evs\<rparr>) =
               Some (Inr True, s\<lparr>log := log s @ evs @
                  delivery P (exceptionHandler s) h2 m2 (messages s m2) (rev (hooksOf s h2))\<rparr>)))"
    if hooks: "\<forall>k. Some k \<in> set (hooksOf s h) \<longrightarrow>
          calls (hookBody P k h m (messages s m)) = [] \<and> ending (hookBody P k h m (messages s m)) \<noteq> Returns False"
      and handler: "calls (processMessage P h m (messages s m)) = []" and fuel: "length (hooksOf s h) + 5 \<le> n"
  proof -
    let ?x = "exceptionHandler s"
    let ?evs = "delivery P ?x h m (messages s m) (rev (hooksOf s h))"
    let ?s1 = "s\<lparr>log := log s @ ?evs\<rparr>"
    have run: "sendMessage P n h m s = Some (Inr True, ?s1)"
      by (rule sendMessage_engineFree) (use hooks handler fuel ct in auto)
    have "\<forall>k. Some k \<in> set (rev (hooksOf s h)) \<longrightarrow> ending (hookBody P k h m (messages s m)) \<noteq> Returns False"
      using hooks by simp
    from chainEvents_all_called[OF this, of ?x]
    have called: "\<forall>k. Some k \<in> set (hooksOf s h) \<longrightarrow> HookCalled k h m \<in> set ?evs"
      and processed: "ProcessMessage h m \<in> set ?evs"
      by (auto simp: delivery_def)
    have later: "sendMessage P n2 h2 m2 ?s1 =
        Some (Inr True, s\<lparr>log := log s @ ?evs @ delivery P ?x h2 m2 (messages s m2) (rev (hooksOf s h2))\<rparr>)"
      if "\<forall>k. Some k \<in> set (hooksOf s h2) \<longrightarrow> calls (hookBody P k h2 m2 (messages s m2)) = []"
        and "calls (processMessage P h2 m2 (messages s m2)) = []" and "length (hooksOf s h2) + 5 \<le> n2"
    proof -
      have same: "hooksOf ?s1 h2 = hooksOf s h2" "exceptionHandler ?s1 = ?x"
        by (simp_all add: hooksOf_def)
      have "sendMessage P n2 h2 m2 ?s1 =
        Some (Inr True, ?s1\<lparr>log := log ?s1 @ delivery P (exceptionHandler ?s1) h2 m2 (messages s m2) (rev (hooksOf ?s1 h2))\<rparr>)"
        by (rule sendMessage_engineFree) (use that ct same in auto)
      then show ?thesis using same by simp
    qed
    show ?thesis using run called processed later by blast
  qed
  show ?thesis using a b c d by blast
qed

text \<open>
  C10: the exception handler is called without a guard. When it throws, its exception
  leaves \<^verbatim>\<open>invokeHook\<close> and \<^verbatim>\<open>invokeHandler\<close>, then \<^verbatim>\<open>sendMessage\<close>, and
  then a running loop, which stops with the remaining entries and its sentinel still
  queued.
\<close>

theorem exception_handler_fault_propagates:
  assumes x: "exceptionHandler s = CustomHandler y"
    and y: "handleException P y err = \<lparr>calls = [], ending = Throws err'\<rparr>"
  shows "(calls (hookBody P k h m (messages s m)) = [] \<and> ending (hookBody P k h m (messages s m)) = Throws err \<longrightarrow>
       invokeHook P (Suc (Suc (Suc n))) k h m s =
         Some (Inl err', s\<lparr>log := log s @ [HookCalled k h m, ExceptionHandled (CustomHandler y) err]\<rparr>)) \<and>
    (calls (processMessage P h m (messages s m)) = [] \<and> ending (processMessage P h m (messages s m)) = Throws err \<longrightarrow>
       invokeHandler P (Suc (Suc (Suc n))) h m s =
         Some (Inl err', s\<lparr>log := log s @ [ProcessMessage h m, ExceptionHandled (CustomHandler y) err]\<rparr>)) \<and>
    (calls (hookBody P k h m (messages s m)) = [] \<and> ending (hookBody P k h m (messages s m)) = Throws err \<and>
      hooksOf s h = hs @ [Some k] \<longrightarrow>
       sendMessage P (Suc (Suc (Suc (Suc (Suc n))))) h m s =
         Some (Inl err', s\<lparr>log := log s @ [HookCalled k h m, ExceptionHandled (CustomHandler y) err]\<rparr>)) \<and>
    (calls (processMessage P h m (messages s m)) = [] \<and> ending (processMessage P h m (messages s m)) = Throws err \<and>
      hooksOf s h = [] \<longrightarrow>
       sendMessage P (Suc (Suc (Suc (Suc n)))) h m s =
         Some (Inl err', s\<lparr>log := log s @ [ProcessMessage h m, ExceptionHandled (CustomHandler y) err]\<rparr>)) \<and>
    (calls (processMessage P h m (messages s m)) = [] \<and> ending (processMessage P h m (messages s m)) = Throws err \<and>
      hooksOf s h = [] \<and> messageQueue s = p # rest \<and> handler p = Some h \<and> msg p = Some m \<and>
      ref p \<noteq> nextRef s \<longrightarrow>
       runMessageLoop P (Suc (Suc (Suc (Suc (Suc (Suc n)))))) s =
         Some (Inl err', s\<lparr>pending := None,
            messageQueue := rest @ [\<lparr>ref = nextRef s, handler = None, msg = None\<rparr>],
            nextRef := Suc (nextRef s),
            log := log s @ [Dequeued p, ProcessMessage h m, ExceptionHandled (CustomHandler y) err]\<rparr>))"
proof -
  have hook: "invokeHook P (Suc (Suc (Suc n))) k h m t =
         Some (Inl err', t\<lparr>log := log t @ [HookCalled k h m, ExceptionHandled (CustomHandler y) err]\<rparr>)"
    if "calls (hookBody P k h m (messages s m)) = []" "ending (hookBody P k h m (messages s m)) = Throws err"
       "exceptionHandler t = CustomHandler y" "messages t m = messages s m" for t n
    using that y by (simp add: tryCatch_def andThen_def logEvent_def)
  have handler: "invokeHandler P (Suc (Suc (Suc n))) h m t =
         Some (Inl err', t\<lparr>log := log t @ [ProcessMessage h m, ExceptionHandled (CustomHandler y) err]\<rparr>)"
    if "calls (processMessage P h m (messages s m)) = []" "ending (processMessage P h m (messages s m)) = Throws err"
       "exceptionHandler t = CustomHandler y" "messages t m = messages s m" for t n
    using that y by (simp add: tryCatch_def andThen_def logEvent_def)
  have send1: "sendMessage P (Suc (Suc (Suc (Suc (Suc n))))) h m s =
         Some (Inl err', s\<lparr>log := log s @ [HookCalled k h m, ExceptionHandled (CustomHandler y) err]\<rparr>)"
    if "calls (hookBody P k h m (messages s m)) = []" "ending (hookBody P k h m (messages s m)) = Throws err"
       "hooksOf s h = hs @ [Some k]"
  proof -
    from that(3) have mh: "messageHooks s h = Some (hs @ [Some k])"
      by (auto simp: hooksOf_def split: option.splits)
    then have at: "hookAt s h (length hs) = Some k" by (simp add: hookAt_def)
    show ?thesis using mh at hook[OF that(1,2) x refl, of n]
      by (simp add: andThen_def)
  qed
  have send2: "sendMessage P (Suc (Suc (Suc (Suc n)))) h m t =
         Some (Inl err', t\<lparr>log := log t @ [ProcessMessage h m, ExceptionHandled (CustomHandler y) err]\<rparr>)"
    if "calls (processMessage P h m (messages s m)) = []" "ending (processMessage P h m (messages s m)) = Throws err"
       "hooksOf t h = []" "exceptionHandler t = CustomHandler y" "messages t m = messages s m" for t n
    using handler[OF that(1,2,4,5), of n] that(3)
    by (auto simp: hooksOf_def split: option.splits)
  have loop: "runMessageLoop P (Suc (Suc (Suc (Suc (Suc (Suc n)))))) s =
         Some (Inl err', s\<lparr>pending := None,
            messageQueue := rest @ [\<lparr>ref = nextRef s, handler = None, msg = None\<rparr>],
            nextRef := Suc (nextRef s),
            log := log s @ [Dequeued p, ProcessMessage h m, ExceptionHandled (CustomHandler y) err]\<rparr>)"
    if "calls (processMessage P h m (messages s m)) = []" "ending (processMessage P h m (messages s m)) = Throws err"
       "hooksOf s h = []" "messageQueue s = p # rest" "handler p = Some h" "msg p = Some m"
       "ref p \<noteq> nextRef s"
  proof -
    let ?t = "logEvent (Dequeued p)
       ((addLast None None (s\<lparr>pending := None\<rparr>))\<lparr>messageQueue := rest @ [\<lparr>ref = nextRef s, handler = None, msg = None\<rparr>]\<rparr>)"
    have t: "hooksOf ?t h = []" "exceptionHandler ?t = CustomHandler y" "messages ?t m = messages s m"
      using that(3) x by (simp_all add: hooksOf_def logEvent_def addLast_def)
    show ?thesis using that(4-7) send2[OF that(1,2) t, of n]
      by (simp add: Let_def addLast_def andThen_def logEvent_def)
  qed
  show ?thesis using hook[OF _ _ x refl] handler[OF _ _ x refl] send1 send2[OF _ _ _ x refl] loop by blast
qed


lemma faultyHooked_hooks:
  "hooksOf faultyHooked h = (if h = 1 then [Some (HookFunction 0)] else [])"
  by (simp add: faultyHooked_def installMessageHook_def initial_def hooksOf_def)

theorem exceptions_are_routed_not_propagated_witness:
  "\<exists>evs. sendMessage faultyCode 6 1 1 faultyHooked
        = Some (Inr True, faultyHooked\<lparr>log := log faultyHooked @ evs\<rparr>) \<and>
     HookCalled (HookFunction 0) 1 1 \<in> set evs \<and>
     ProcessMessage 1 1 \<in> set evs \<and>
     sendMessage faultyCode 5 2 2 (faultyHooked\<lparr>log := log faultyHooked @ evs\<rparr>)
        = Some (Inr True, faultyHooked\<lparr>log := log faultyHooked @ evs @ [ProcessMessage 2 2]\<rparr>)"
proof -
  have tame: "\<forall>y. tame faultyCode (CustomHandler y)"
    by (auto simp: tame_def faultyCode_def quiet_def)
  have hooks: "\<forall>k. Some k \<in> set (hooksOf faultyHooked 1) \<longrightarrow>
      calls (hookBody faultyCode k 1 1 (messages faultyHooked 1)) = [] \<and>
      ending (hookBody faultyCode k 1 1 (messages faultyHooked 1)) \<noteq> Returns False"
    by (simp add: faultyHooked_hooks hookBody_def faultyCode_def)
  have handler: "calls (processMessage faultyCode 1 1 (messages faultyHooked 1)) = []"
    by (simp add: faultyCode_def)
  have fuel: "length (hooksOf faultyHooked 1) + 5 \<le> 6" by (simp add: faultyHooked_hooks)
  have other: "(\<forall>k. Some k \<in> set (hooksOf faultyHooked 2) \<longrightarrow>
      calls (hookBody faultyCode k 2 2 (messages faultyHooked 2)) = []) \<and>
      calls (processMessage faultyCode 2 2 (messages faultyHooked 2)) = [] \<and>
      length (hooksOf faultyHooked 2) + 5 \<le> 5"
    by (simp add: faultyHooked_hooks faultyCode_def quiet_def)
  have d: "delivery faultyCode (exceptionHandler faultyHooked) 2 2 (messages faultyHooked 2) (rev (hooksOf faultyHooked 2))
      = [ProcessMessage 2 2]"
    by (simp add: faultyHooked_hooks delivery_def faults_def faultyCode_def quiet_def)
  from exceptions_are_routed_not_propagated[OF tame, where s = faultyHooked and h = 1
      and m = 1 and n = 6 and ?h2.0 = 2 and ?m2.0 = 2 and ?n2.0 = 5]
    hooks handler fuel other d
  show ?thesis by (simp add: faultyHooked_hooks)
qed

lemma rethrowing_state:
  "messageQueue rethrowing =
     [\<lparr>ref = 0, handler = Some 1, msg = Some 1\<rparr>,
      \<lparr>ref = 1, handler = Some 2, msg = Some 2\<rparr>]"
  "exceptionHandler rethrowing = CustomHandler 0"
  "nextRef rethrowing = 2" "hooksOf rethrowing h = []" "log rethrowing = []"
  "messages rethrowing = plainMessages"
  by (simp_all add: rethrowing_def postMessage_def plainMsg_def plainMessages_def enqueueMessage_def
      addLast_def schedule_def initial_def hooksOf_def Let_def)

theorem exception_handler_fault_propagates_witness:
  "\<exists>s'. runMessageLoop rethrowingCode 6 rethrowing = Some (Inl (UserError 1), s') \<and>
     map ref (messageQueue s') = [1, 2] \<and>
     log s' = [Dequeued \<lparr>ref = 0, handler = Some 1, msg = Some 1\<rparr>,
               ProcessMessage 1 1,
               ExceptionHandled (CustomHandler 0) (UserError 1)]"
proof -
  have y: "handleException rethrowingCode 0 (UserError 1) = \<lparr>calls = [], ending = Throws (UserError 1)\<rparr>"
    by (simp add: rethrowingCode_def)
  have h: "calls (processMessage rethrowingCode 1 1 (messages rethrowing 1)) = [] \<and>
      ending (processMessage rethrowingCode 1 1 (messages rethrowing 1)) = Throws (UserError 1)"
    by (simp add: rethrowingCode_def faultyCode_def)
  from exception_handler_fault_propagates[OF rethrowing_state(2) y, where h = 1
      and m = 1 and n = 0
      and p = "\<lparr>ref = 0, handler = Some 1, msg = Some 1\<rparr>"
      and rest = "[\<lparr>ref = 1, handler = Some 2, msg = Some 2\<rparr>]"] h
  show ?thesis by (simp add: rethrowing_state eval_nat_numeral)
qed

text \<open>
  C4, as stated, fails when the exception handler throws: the exception of the
  handler's \<open>processMessage\<close>, thrown again by the exception handler, reaches the
  caller of \<^verbatim>\<open>sendMessage\<close>.
\<close>

theorem sendMessage_propagates_counterexample:
  "sendMessage rethrowingCode 4 1 1 ((initial plainMessages)\<lparr>exceptionHandler := CustomHandler 0\<rparr>)
     = Some (Inl (UserError 1),
         (initial plainMessages)\<lparr>exceptionHandler := CustomHandler 0,
           log := [ProcessMessage 1 1, ExceptionHandled (CustomHandler 0) (UserError 1)]\<rparr>)"
  by (simp add: eval_nat_numeral rethrowingCode_def faultyCode_def initial_def tryCatch_def
      andThen_def logEvent_def)

section \<open>The hook registry\<close>

lemma indexOf_None: "indexOf xs x = None \<longleftrightarrow> x \<notin> set xs"
  by (induction xs) (auto split: option.splits)

lemma indexOf_Some:
  "indexOf xs x = Some i \<Longrightarrow> i < length xs \<and> xs ! i = x \<and> x \<notin> set (take i xs)"
proof (induction xs arbitrary: i)
  case Nil
  then show ?case by simp
next
  case (Cons y ys)
  then show ?case by (cases i) (auto split: if_splits option.splits)
qed

lemma liveHooks_append: "liveHooks (a @ b) = liveHooks a @ liveHooks b"
  by (induction a rule: liveHooks.induct) auto

lemma set_liveHooks: "set (liveHooks ks) = {k. Some k \<in> set ks}"
  by (induction ks rule: liveHooks.induct) auto

lemma liveHooks_rev: "liveHooks (rev ks) = rev (liveHooks ks)"
  by (induction ks rule: liveHooks.induct) (auto simp: liveHooks_append)

lemma hooksOf_install:
  "hooksOf (installMessageHook h k s) h' =
     (if h' = h \<and> Some k \<notin> set (hooksOf s h) then hooksOf s h @ [Some k] else hooksOf s h')"
  by (auto simp: installMessageHook_def hooksOf_def indexOf_None split: option.splits)

lemma install_present: "Some k \<in> set (hooksOf s h) \<Longrightarrow> installMessageHook h k s = s"
  by (auto simp: installMessageHook_def hooksOf_def indexOf_None split: option.splits)

lemma install_other_fields:
  "messageQueue (installMessageHook h k s) = messageQueue s"
  "pending (installMessageHook h k s) = pending s"
  "microtasks (installMessageHook h k s) = microtasks s"
  "exceptionHandler (installMessageHook h k s) = exceptionHandler s"
  "log (installMessageHook h k s) = log s"
  "flushGuard (installMessageHook h k s) = flushGuard s"
  "nextRef (installMessageHook h k s) = nextRef s"
  "dirtySet (installMessageHook h k s) = dirtySet s"
  "messages (installMessageHook h k s) = messages s"
  by (auto simp: installMessageHook_def split: option.splits)

lemma count_chainEvents:
  "count_list (chainEvents P x h m c ks) (HookCalled k h m) \<le> count_list (liveHooks ks) k"
proof (induction ks rule: liveHooks.induct)
  case 1
  then show ?case by simp
next
  case (2 ks)
  then show ?case by simp
next
  case (3 k0 ks)
  have "count_list (faults x (ending (hookBody P k0 h m c))) (HookCalled k h m) = 0"
    by (auto simp: faults_def split: ending.splits)
  then show ?case using 3 by auto
qed

lemma count_list_distinct: "distinct xs \<Longrightarrow> count_list xs x \<le> 1"
  by (induction xs) (auto simp: count_list_0_iff)

lemma count_delivery:
  assumes "distinct (liveHooks ks)"
  shows "count_list (delivery P x h m c ks) (HookCalled k h m) \<le> 1"
proof -
  have "count_list (faults x (ending (processMessage P h m c))) (HookCalled k h m) = 0"
    by (auto simp: faults_def split: ending.splits)
  then have "count_list (delivery P x h m c ks) (HookCalled k h m) \<le> count_list (liveHooks ks) k"
    using count_chainEvents[of P x h m c ks k] by (simp add: delivery_def)
  also have "\<dots> \<le> 1" using assms by (rule count_list_distinct)
  finally show ?thesis .
qed

text \<open>
  C7: installing a hook twice is installing it once, and installing a hook that the
  array of the handler already holds changes nothing; a hook that is not held is
  appended to the array. After two installs of the same hook a send calls that hook
  at most once, and first if it was newly appended. (The send is taken with hooks
  and a handler that return and make no engine call, from a state in which no hook is
  held twice.)
\<close>

theorem installMessageHook_idempotent:
  "installMessageHook h k (installMessageHook h k s) = installMessageHook h k s \<and>
   (Some k \<in> set (hooksOf s h) \<longrightarrow> installMessageHook h k s = s) \<and>
   (Some k \<notin> set (hooksOf s h) \<longrightarrow>
      hooksOf (installMessageHook h k s) h = hooksOf s h @ [Some k]) \<and>
   (distinct (liveHooks (hooksOf s h)) \<and>
    (\<forall>k'. Some k' \<in> set (hooksOf (installMessageHook h k s) h) \<longrightarrow>
       calls (hookBody P k' h m (messages s m)) = [] \<and> (\<exists>b. ending (hookBody P k' h m (messages s m)) = Returns b)) \<and>
    calls (processMessage P h m (messages s m)) = [] \<and> (\<exists>b. ending (processMessage P h m (messages s m)) = Returns b) \<and>
    length (hooksOf s h) + 6 \<le> n \<longrightarrow>
      (\<exists>evs. sendMessage P n h m (installMessageHook h k (installMessageHook h k s))
           = Some (Inr True, (installMessageHook h k s)\<lparr>log := log s @ evs\<rparr>) \<and>
         count_list evs (HookCalled k h m) \<le> 1 \<and>
         (Some k \<notin> set (hooksOf s h) \<longrightarrow> (\<exists>rest. evs = HookCalled k h m # rest))))"
proof -
  let ?s1 = "installMessageHook h k s"
  have present: "Some k \<in> set (hooksOf ?s1 h)" by (simp add: hooksOf_install)
  have idem: "installMessageHook h k ?s1 = ?s1" by (rule install_present[OF present])
  have send: "\<exists>evs. sendMessage P n h m (installMessageHook h k ?s1)
           = Some (Inr True, ?s1\<lparr>log := log s @ evs\<rparr>) \<and>
         count_list evs (HookCalled k h m) \<le> 1 \<and>
         (Some k \<notin> set (hooksOf s h) \<longrightarrow> (\<exists>rest. evs = HookCalled k h m # rest))"
    if dist: "distinct (liveHooks (hooksOf s h))"
      and hooks: "\<forall>k'. Some k' \<in> set (hooksOf ?s1 h) \<longrightarrow>
         calls (hookBody P k' h m (messages s m)) = [] \<and> (\<exists>b. ending (hookBody P k' h m (messages s m)) = Returns b)"
      and handler: "calls (processMessage P h m (messages s m)) = []" "\<exists>b. ending (processMessage P h m (messages s m)) = Returns b"
      and fuel: "length (hooksOf s h) + 6 \<le> n"
  proof -
    let ?x = "exceptionHandler ?s1"
    let ?evs = "delivery P ?x h m (messages s m) (rev (hooksOf ?s1 h))"
    have run: "sendMessage P n h m ?s1 = Some (Inr True, ?s1\<lparr>log := log ?s1 @ ?evs\<rparr>)"
      by (rule sendMessage_engineFree)
        (use hooks handler fuel in \<open>auto simp: contained_def hooksOf_install install_other_fields\<close>)
    have d1: "distinct (liveHooks (rev (hooksOf ?s1 h)))"
      using dist by (auto simp: hooksOf_install liveHooks_rev liveHooks_append set_liveHooks)
    have first: "\<exists>rest. ?evs = HookCalled k h m # rest" if "Some k \<notin> set (hooksOf s h)"
      using that by (simp add: hooksOf_install delivery_def)
    show ?thesis using run count_delivery[OF d1, of P ?x h m "messages s m" k] first idem
      by (auto simp: install_other_fields)
  qed
  show ?thesis using idem install_present[of k s h] hooksOf_install[of h k s h] send by auto
qed


lemma oneHook_hooks: "hooksOf oneHook h = (if h = 3 then [Some (HookFunction 0)] else [])"
  by (simp add: oneHook_def installMessageHook_def initial_def hooksOf_def)

theorem installMessageHook_idempotent_witness:
  "\<exists>evs rest. sendMessage guardedCode 7 3 0
        (installMessageHook 3 (HookObject 1) (installMessageHook 3 (HookObject 1) oneHook))
      = Some (Inr True, (installMessageHook 3 (HookObject 1) oneHook)\<lparr>log := log oneHook @ evs\<rparr>) \<and>
     count_list evs (HookCalled (HookObject 1) 3 0) \<le> 1 \<and>
     evs = HookCalled (HookObject 1) 3 0 # rest"
proof -
  have new: "Some (HookObject 1) \<notin> set (hooksOf oneHook 3)" by (simp add: oneHook_hooks)
  have dist: "distinct (liveHooks (hooksOf oneHook 3))" by (simp add: oneHook_hooks)
  have hooks: "\<forall>k'. Some k' \<in> set (hooksOf (installMessageHook 3 (HookObject 1) oneHook) 3) \<longrightarrow>
       calls (hookBody guardedCode k' 3 0 (messages oneHook 0)) = [] \<and>
       (\<exists>b. ending (hookBody guardedCode k' 3 0 (messages oneHook 0)) = Returns b)"
    by (auto simp: hooksOf_install oneHook_hooks hookBody_def guardedCode_def quiet_def)
  have handler: "calls (processMessage guardedCode 3 0 (messages oneHook 0)) = [] \<and>
      (\<exists>b. ending (processMessage guardedCode 3 0 (messages oneHook 0)) = Returns b)"
    by (auto simp: guardedCode_def quiet_def)
  have fuel: "length (hooksOf oneHook 3) + 6 \<le> 7" by (simp add: oneHook_hooks)
  from installMessageHook_idempotent[of 3 "HookObject 1" oneHook guardedCode 0 7]
    new dist hooks handler fuel
  show ?thesis by blast
qed

section \<open>Removing hooks\<close>

lemma hooksOf_simps [simp]:
  "hooksOf (logEvent ev s) = hooksOf s"
  "hooksOf (snd (postMessage P h m s)) = hooksOf s"
  "hooksOf (enqueueMessage h m s) = hooksOf s"
  "hooksOf (s\<lparr>messages := ms\<rparr>) = hooksOf s"
  "hooksOf (cancel t s) = hooksOf s"
  "hooksOf (addLast a b s) = hooksOf s"
  "hooksOf (s\<lparr>pending := p\<rparr>) = hooksOf s"
  "hooksOf (s\<lparr>flushGuard := g\<rparr>) = hooksOf s"
  "hooksOf (s\<lparr>exceptionHandler := x\<rparr>) = hooksOf s"
  "hooksOf (s\<lparr>messageQueue := q\<rparr>) = hooksOf s"
  "hooksOf (s\<lparr>log := l\<rparr>) = hooksOf s"
  by (simp_all add: hooksOf_def logEvent_def addLast_def cancel_def fun_eq_iff)

lemma log_simps [simp]:
  "log (logEvent ev s) = log s @ [ev]"
  "log (cancel t s) = log s"
  "log (addLast a b s) = log s"
  "log (installMessageHook h k s) = log s"
  "log (removeMessageHook h k s) = log s"
  "log (clearData h s) = log s"
  by (auto simp: logEvent_def addLast_def
      schedule_def cancel_def installMessageHook_def removeMessageHook_def clearData_def
      scheduleCleanup_def Let_def split: prod.splits option.splits)

lemma hookAt_hooksOf: "hookAt s h i = Some k \<Longrightarrow> Some k \<in> set (hooksOf s h)"
  by (auto simp: hookAt_def hooksOf_def split: option.splits if_splits dest: nth_mem)

lemma hooksOf_scheduleCleanup [simp]: "hooksOf (scheduleCleanup h s) = hooksOf s"
  by (auto simp: hooksOf_def scheduleCleanup_def schedule_def Let_def fun_eq_iff)

lemma hooksOf_remove:
  "hooksOf (removeMessageHook h k s) h' =
     (if h' = h then (case indexOf (hooksOf s h) (Some k) of
                        None \<Rightarrow> hooksOf s h
                      | Some i \<Rightarrow> (hooksOf s h)[i := None])
      else hooksOf s h')"
  by (auto simp: removeMessageHook_def hooksOf_def scheduleCleanup_def schedule_def Let_def
      split: option.splits)

lemma hooksOf_clearData:
  "hooksOf (clearData h s) h' =
     (if h' = h then replicate (length (hooksOf s h)) None else hooksOf s h')"
  by (auto simp: clearData_def hooksOf_def scheduleCleanup_def schedule_def Let_def
      split: option.splits)

lemma set_update_None: "Some k \<in> set (xs[i := None]) \<Longrightarrow> Some k \<in> set xs"
  by (metis insertE option.distinct(1) set_update_subset_insert subsetD)

lemma hook_stays_absent:
  assumes "Install h k \<notin> userCalls P"
    and "run P n c s = Some (r, s')"
    and "Some k \<notin> set (hooksOf s h)"
    and "permitted (\<lambda>c. c \<noteq> Install h k) (\<lambda>_ _. True) True s c"
  shows "Some k \<notin> set (hooksOf s' h) \<and> filter (isHookCall k h) (log s') = filter (isHookCall k h) (log s)"
proof -
  define I where "I = (\<lambda>t. Some k \<notin> set (hooksOf t h) \<and>
      filter (isHookCall k h) (log t) = filter (isHookCall k h) (log s))"
  have "I s'"
  proof (rule run_invariant[where I = I and okc = "\<lambda>c. c \<noteq> Install h k" and oks = "\<lambda>_ _. True"
        and loops = True and flushes = True, OF _ _ _ _ _ _ _ _ _ _ _ _ _ _ assms(2)])
    show "c \<noteq> Install h k" if "c \<in> userCalls P" for c using that assms(1) by auto
    show "I (logEvent (HookCalled k' h' m) t)" if "I t" "hookAt t h' i = Some k'" for t k' h' m i
      using that hookAt_hooksOf[OF that(2)] by (auto simp: I_def)
    show "I (installMessageHook h' k' t)" if "I t" "Install h' k' \<noteq> Install h k" for t h' k'
      using that by (auto simp: I_def hooksOf_install)
    show "I (removeMessageHook h' k' t)" if "I t" for t h' k'
      using that by (auto simp: I_def hooksOf_remove split: option.splits dest: set_update_None)
    show "I (clearData h' t)" if "I t" for t h'
      using that by (auto simp: I_def hooksOf_clearData)
    show "I s" using assms(3) by (simp add: I_def)
    show "permitted (\<lambda>c. c \<noteq> Install h k) (\<lambda>_ _. True) True s c" by (rule assms(4))
  qed (auto simp: I_def)
  then show ?thesis by (simp add: I_def)
qed


lemma chainPasses_append: "chainPasses P h m c (a @ b) = (chainPasses P h m c a \<and> chainPasses P h m c b)"
  by (induction a rule: liveHooks.induct) auto

lemma chainEvents_append:
  "chainEvents P x h m c (a @ b) =
     chainEvents P x h m c a @ (if chainPasses P h m c a then chainEvents P x h m c b else [])"
  by (induction a rule: liveHooks.induct) auto

lemma indexOf_first:
  "i < length xs \<Longrightarrow> xs ! i = x \<Longrightarrow> \<forall>j < length xs. xs ! j = x \<longrightarrow> j = i \<Longrightarrow> indexOf xs x = Some i"
proof (induction xs arbitrary: i)
  case Nil
  then show ?case by simp
next
  case (Cons y ys)
  show ?case
  proof (cases i)
    case 0
    then show ?thesis using Cons.prems by simp
  next
    case (Suc i')
    have "y \<noteq> x" using Cons.prems(3)[THEN spec, of 0] Suc by auto
    moreover have "indexOf ys x = Some i'"
    proof (rule Cons.IH)
      show "i' < length ys" "ys ! i' = x" using Cons.prems Suc by auto
      show "\<forall>j<length ys. ys ! j = x \<longrightarrow> j = i'"
      proof (intro allI impI)
        fix j assume "j < length ys" "ys ! j = x"
        then have "Suc j < length (y # ys)" "(y # ys) ! Suc j = x" by auto
        then have "Suc j = i" using Cons.prems(3) by blast
        then show "j = i'" using Suc by simp
      qed
    qed
    ultimately show ?thesis using Suc by simp
  qed
qed

lemma removeMessageHook_log [simp]:
  "removeMessageHook h k (s\<lparr>log := l\<rparr>) = (removeMessageHook h k s)\<lparr>log := l\<rparr>"
  by (auto simp: removeMessageHook_def scheduleCleanup_def schedule_def Let_def split: option.splits)

lemma removeMessageHook_frame [simp]:
  "exceptionHandler (removeMessageHook h k s) = exceptionHandler s"
  "messageQueue (removeMessageHook h k s) = messageQueue s"
  "pending (removeMessageHook h k s) = pending s"
  "flushGuard (removeMessageHook h k s) = flushGuard s"
  "nextRef (removeMessageHook h k s) = nextRef s"
  "messages (removeMessageHook h k s) = messages s"
  by (auto simp: removeMessageHook_def scheduleCleanup_def schedule_def Let_def split: option.splits)


lemma sendMessage_self_removing:
  assumes mh: "messageHooks s h = Some hs" and i: "i < length hs" and at: "hs ! i = Some k"
    and only: "\<forall>j < length hs. hs ! j = Some k \<longrightarrow> j = i"
    and body: "hookBody P k h m c = \<lparr>calls = [Remove h k], ending = Returns b\<rparr>"
    and others: "\<forall>k'. Some k' \<in> set hs \<longrightarrow> k' \<noteq> k \<longrightarrow>
        calls (hookBody P k' h m c) = [] \<and> contained P (exceptionHandler s) (ending (hookBody P k' h m c))"
    and handler: "calls (processMessage P h m c) = []"
       "contained P (exceptionHandler s) (ending (processMessage P h m c))"
    and fuel: "length hs + 7 \<le> n"
    and msg: "messages s m = c"
  shows "sendMessage P n h m s = Some (Inr True,
      (if chainPasses P h m c (rev (drop (Suc i) hs)) then removeMessageHook h k s else s)
        \<lparr>log := log s @ delivery P (exceptionHandler s) h m c (rev hs)\<rparr>)"
proof -
  let ?x = "exceptionHandler s"
  let ?A = "rev (drop (Suc i) hs)"
  let ?B = "rev (take i hs)"
  let ?L = "length hs"
  from id_take_nth_drop[OF i] have "rev hs = rev (take i hs @ hs ! i # drop (Suc i) hs)"
    by (rule arg_cong)
  then have split: "rev hs = ?A @ Some k # ?B" using at by simp
  obtain n1 where n: "n = Suc n1" using fuel by (cases n) auto
  have n1: "?L + 6 \<le> n1" using fuel n by simp
  have nonempty: "length hs \<noteq> 0" using i by auto
  have send: "sendMessage P n h m s =
      andThen (run P n1 (EveryRetro ?L h m) s)
        (\<lambda>passed s1. if passed then run P n1 (InvokeHandler h m) s1 else Some (Inr True, s1))"
    using n mh nonempty by simp
  let ?sA = "s\<lparr>log := log s @ chainEvents P ?x h m c ?A\<rparr>"
  have newer: "\<forall>k'. Some k' \<in> set (drop (Suc i) (take ?L hs)) \<longrightarrow>
      calls (hookBody P k' h m c) = [] \<and> contained P ?x (ending (hookBody P k' h m c))"
  proof (intro allI impI)
    fix k' assume "Some k' \<in> set (drop (Suc i) (take ?L hs))"
    then have mem: "Some k' \<in> set (drop (Suc i) hs)" by simp
    then obtain j where j: "j < length (drop (Suc i) hs)" "drop (Suc i) hs ! j = Some k'"
      by (auto simp: in_set_conv_nth)
    then have jj: "hs ! (Suc i + j) = Some k'" "Suc i + j < length hs" by auto
    have "k' \<noteq> k"
    proof
      assume "k' = k"
      then have "hs ! (Suc i + j) = Some k" using jj by simp
      then have "Suc i + j = i" using only jj(2) by blast
      then show False by simp
    qed
    moreover have "Some k' \<in> set hs" using mem by (rule in_set_dropD)
    ultimately show "calls (hookBody P k' h m c) = [] \<and> contained P ?x (ending (hookBody P k' h m c))"
      using others by blast
  qed
  have E1: "run P n1 (EveryRetro ?L h m) s =
      (if chainPasses P h m c ?A
       then run P (n1 - (?L - Suc i)) (EveryRetro (Suc i) h m) ?sA
       else Some (Inr False, ?sA))"
    using everyRetro_engineFree[where j = "Suc i" and i = ?L and x = ?x and n = n1, OF mh _ _ newer]
      i n1 msg by simp
  show ?thesis
  proof (cases "chainPasses P h m c ?A")
    case False
    have "delivery P ?x h m c (rev hs) = chainEvents P ?x h m c ?A"
      using False by (simp add: split delivery_def chainEvents_append chainPasses_append)
    then show ?thesis using send E1 False by (simp add: andThen_def)
  next
    case True
    let ?f1 = "n1 - (?L - Suc i)"
    have f1: "i + 7 \<le> ?f1" using n1 i by arith
    then have "5 \<le> ?f1" by arith
    then obtain f5 where f5: "?f1 = Suc (Suc (Suc (Suc (Suc f5))))"
      by (auto simp: eval_nat_numeral Suc_le_eq dest!: less_imp_Suc_add)
    let ?f2 = "Suc (Suc (Suc (Suc f5)))"
    have atA: "hookAt ?sA h i = Some k" using mh i at by (simp add: hookAt_def)
    let ?sC = "removeMessageHook h k (logEvent (HookCalled k h m) ?sA)"
    have E3: "run P ?f2 (InvokeHook k h m) ?sA = Some (Inr b, ?sC)"
      using body msg by (simp add: tryCatch_def andThen_def)
    have E2: "run P ?f1 (EveryRetro (Suc i) h m) ?sA =
        (if b = False then Some (Inr False, ?sC) else run P ?f2 (EveryRetro i h m) ?sC)"
      unfolding f5 using atA E3 by (simp add: andThen_def)
    have sC: "?sC = (removeMessageHook h k s)\<lparr>log := log s @ chainEvents P ?x h m c ?A @ [HookCalled k h m]\<rparr>"
      by (simp add: logEvent_def removeMessageHook_log)
    have idx: "indexOf hs (Some k) = Some i" using indexOf_first[OF i at only] .
    have mhC: "messageHooks ?sC h = Some (hs[i := None])"
      using mh idx by (simp add: removeMessageHook_def logEvent_def scheduleCleanup_def schedule_def Let_def)
    show ?thesis
    proof (cases b)
      case False
      have "delivery P ?x h m c (rev hs) = chainEvents P ?x h m c ?A @ [HookCalled k h m]"
        using True False body
        by (simp add: split delivery_def chainEvents_append chainPasses_append verdict_def faults_def)
      then show ?thesis using send E1 E2 True False sC by (simp add: andThen_def)
    next
      case b: True
      let ?sD = "?sC\<lparr>log := log ?sC @ chainEvents P ?x h m c ?B\<rparr>"
      have older: "\<forall>k'. Some k' \<in> set (drop 0 (take i (hs[i := None]))) \<longrightarrow>
          calls (hookBody P k' h m c) = [] \<and> contained P ?x (ending (hookBody P k' h m c))"
      proof (intro allI impI)
        fix k' assume "Some k' \<in> set (drop 0 (take i (hs[i := None])))"
        then have mem: "Some k' \<in> set (take i hs)" by simp
        then obtain j where j: "j < length (take i hs)" "take i hs ! j = Some k'"
          by (auto simp: in_set_conv_nth)
        then have jj: "hs ! j = Some k'" "j < i" by auto
        have "k' \<noteq> k"
        proof
          assume "k' = k"
          then have "hs ! j = Some k" "j < length hs" using jj i by auto
          then have "j = i" using only by blast
          then show False using jj by simp
        qed
        moreover have "Some k' \<in> set hs" using mem by (rule in_set_takeD)
        ultimately show "calls (hookBody P k' h m c) = [] \<and> contained P ?x (ending (hookBody P k' h m c))"
          using others by blast
      qed
      have xC: "exceptionHandler ?sC = ?x" by (simp add: logEvent_def)
      have fuelC: "i - 0 + 3 \<le> ?f2" using f1 f5 by arith
      have lenC: "i \<le> length (hs[i := None])" using i by simp
      have E4: "run P ?f2 (EveryRetro i h m) ?sC =
          (if chainPasses P h m c ?B
           then run P (?f2 - (i - 0)) (EveryRetro 0 h m) ?sD
           else Some (Inr False, ?sD))"
        using everyRetro_engineFree[where j = 0 and i = i and x = ?x and n = ?f2 and hs = "hs[i := None]",
            OF mhC lenC _ older xC fuelC] msg by (simp add: logEvent_def)
      have "0 < ?f2 - (i - 0)" using f1 f5 by arith
      then obtain g where g: "?f2 - (i - 0) = Suc g" by (auto dest!: less_imp_Suc_add)
      have E4': "run P ?f2 (EveryRetro i h m) ?sC = Some (Inr (chainPasses P h m c ?B), ?sD)"
        using E4 g by simp
      have sD: "?sD = (removeMessageHook h k s)\<lparr>log := log s @ chainEvents P ?x h m c ?A @
          HookCalled k h m # chainEvents P ?x h m c ?B\<rparr>"
        by (simp add: sC)
      have every: "run P n1 (EveryRetro ?L h m) s = Some (Inr (chainPasses P h m c ?B), ?sD)"
        using E1 True E2 b E4' by simp
      show ?thesis
      proof (cases "chainPasses P h m c ?B")
        case False
        have "delivery P ?x h m c (rev hs) = chainEvents P ?x h m c ?A @ HookCalled k h m # chainEvents P ?x h m c ?B"
          using True False b body
          by (simp add: split delivery_def chainEvents_append chainPasses_append verdict_def faults_def)
        then show ?thesis using send every True False sD by (simp add: andThen_def)
      next
        case pB: True
        have "3 \<le> n1" using n1 by arith
        then obtain n4 where n4: "n1 = Suc (Suc (Suc n4))"
          by (auto simp: numeral_3_eq_3 Suc_le_eq dest!: less_imp_Suc_add)
        have ctD: "contained P (exceptionHandler ?sD) (ending (processMessage P h m c))"
          using handler(2) by (simp add: logEvent_def)
        have H: "run P n1 (InvokeHandler h m) ?sD =
            Some (Inr True, ?sD\<lparr>log := log ?sD @ ProcessMessage h m #
               faults (exceptionHandler ?sD) (ending (processMessage P h m c))\<rparr>)"
          unfolding n4 by (rule invokeHandler_engineFree[OF handler(1) ctD]) (simp add: msg logEvent_def)
        have "delivery P ?x h m c (rev hs) = chainEvents P ?x h m c ?A @ HookCalled k h m #
            chainEvents P ?x h m c ?B @ ProcessMessage h m # faults ?x (ending (processMessage P h m c))"
          using True pB b body
          by (simp add: split delivery_def chainEvents_append chainPasses_append verdict_def faults_def)
        then show ?thesis using send every True pB H sD by (simp add: andThen_def logEvent_def)
      qed
    qed
  qed
qed



lemma removed_absent:
  assumes "distinct (liveHooks hs)" and "indexOf hs (Some k) = Some i"
  shows "Some k \<notin> set (hs[i := None])"
proof -
  from indexOf_Some[OF assms(2)] have i: "i < length hs" "hs ! i = Some k" by auto
  have hs: "hs = take i hs @ Some k # drop (Suc i) hs" using id_take_nth_drop[OF i(1)] i(2) by simp
  have "distinct (liveHooks (take i hs @ Some k # drop (Suc i) hs))" using assms(1) hs by simp
  then have "k \<notin> set (liveHooks (take i hs))" "k \<notin> set (liveHooks (drop (Suc i) hs))"
    by (auto simp: liveHooks_append)
  then have "Some k \<notin> set (take i hs)" "Some k \<notin> set (drop (Suc i) hs)"
    by (auto simp: set_liveHooks)
  then show ?thesis using i(1) by (simp add: upd_conv_take_nth_drop)
qed

lemma removeMessageHook_absent:
  "Some k \<notin> set (hooksOf s h) \<Longrightarrow> removeMessageHook h k s = s"
  by (auto simp: removeMessageHook_def hooksOf_def indexOf_None[symmetric] split: option.splits)

lemma removeMessageHook_schedules:
  assumes "Some k \<in> set (hooksOf s h)"
  shows "h \<in> set (dirtySet (removeMessageHook h k s)) \<and>
     microtasks (removeMessageHook h k s) =
       microtasks s @ (if dirtySet s = [] then [\<lparr>tid = nextTask s, job = CleanupDirtySet, rejected = False\<rparr>] else [])"
proof -
  from assms obtain hs where hs: "messageHooks s h = Some hs" "Some k \<in> set hs"
    by (cases "messageHooks s h") (auto simp: hooksOf_def)
  have "indexOf hs (Some k) \<noteq> None" using hs(2) by (simp add: indexOf_None)
  then obtain i where "indexOf hs (Some k) = Some i" by auto
  then show ?thesis using hs
    by (auto simp: removeMessageHook_def scheduleCleanup_def schedule_def Let_def)
qed

text \<open>
  C6: removing a hook that the array of the handler does not hold changes nothing.
  Removing a hook that is held sets its (first) slot to null, leaves the length of
  the array as it is, puts the array into the dirty set and, when that set was empty,
  schedules the cleanup. A hook that removes itself while it runs does not disturb
  the delivery in progress: the calls made are those determined by the array at the
  start of the call. Once removed (from an array that holds no hook twice) the hook is
  not in the array, and as long as it is not installed again no send calls it.
\<close>

theorem removeMessageHook_tombstones:
  "(Some k \<notin> set (hooksOf s h) \<longrightarrow> removeMessageHook h k s = s) \<and>
   (Some k \<in> set (hooksOf s h) \<longrightarrow>
      (\<exists>i < length (hooksOf s h). hooksOf s h ! i = Some k \<and>
          hooksOf (removeMessageHook h k s) h = (hooksOf s h)[i := None]) \<and>
      length (hooksOf (removeMessageHook h k s) h) = length (hooksOf s h) \<and>
      h \<in> set (dirtySet (removeMessageHook h k s)) \<and>
      microtasks (removeMessageHook h k s) =
        microtasks s @ (if dirtySet s = [] then [\<lparr>tid = nextTask s, job = CleanupDirtySet, rejected = False\<rparr>] else [])) \<and>
   (messageHooks s h = Some hs \<and> i < length hs \<and> hs ! i = Some k \<and>
    (\<forall>j < length hs. hs ! j = Some k \<longrightarrow> j = i) \<and>
    hookBody P k h m (messages s m) = \<lparr>calls = [Remove h k], ending = Returns b\<rparr> \<and>
    (\<forall>k'. Some k' \<in> set hs \<longrightarrow> k' \<noteq> k \<longrightarrow>
        calls (hookBody P k' h m (messages s m)) = [] \<and> contained P (exceptionHandler s) (ending (hookBody P k' h m (messages s m)))) \<and>
    calls (processMessage P h m (messages s m)) = [] \<and>
    contained P (exceptionHandler s) (ending (processMessage P h m (messages s m))) \<and>
    length hs + 7 \<le> n \<longrightarrow>
      sendMessage P n h m s = Some (Inr True,
        (if chainPasses P h m (messages s m) (rev (drop (Suc i) hs)) then removeMessageHook h k s else s)
          \<lparr>log := log s @ delivery P (exceptionHandler s) h m (messages s m) (rev hs)\<rparr>)) \<and>
   (distinct (liveHooks (hooksOf s h)) \<longrightarrow> Some k \<notin> set (hooksOf (removeMessageHook h k s) h)) \<and>
   (Some k \<notin> set (hooksOf t h) \<and> Install h k \<notin> userCalls P \<and>
    sendMessage P n' h' m' t = Some (r, t') \<longrightarrow>
      Some k \<notin> set (hooksOf t' h) \<and>
      filter (isHookCall k h) (log t') = filter (isHookCall k h) (log t))"
proof -
  have a: "Some k \<notin> set (hooksOf s h) \<longrightarrow> removeMessageHook h k s = s"
    using removeMessageHook_absent by blast
  have b: "(\<exists>i < length (hooksOf s h). hooksOf s h ! i = Some k \<and>
          hooksOf (removeMessageHook h k s) h = (hooksOf s h)[i := None]) \<and>
      length (hooksOf (removeMessageHook h k s) h) = length (hooksOf s h)"
    if mem: "Some k \<in> set (hooksOf s h)"
  proof -
    have "indexOf (hooksOf s h) (Some k) \<noteq> None" using mem by (simp add: indexOf_None)
    then obtain j where j: "indexOf (hooksOf s h) (Some k) = Some j" by auto
    from indexOf_Some[OF j] show ?thesis using j by (auto simp: hooksOf_remove)
  qed
  have c: "sendMessage P n h m s = Some (Inr True,
        (if chainPasses P h m (messages s m) (rev (drop (Suc i) hs)) then removeMessageHook h k s else s)
          \<lparr>log := log s @ delivery P (exceptionHandler s) h m (messages s m) (rev hs)\<rparr>)"
    if "messageHooks s h = Some hs" "i < length hs" "hs ! i = Some k"
      "\<forall>j < length hs. hs ! j = Some k \<longrightarrow> j = i"
      "hookBody P k h m (messages s m) = \<lparr>calls = [Remove h k], ending = Returns b\<rparr>"
      "\<forall>k'. Some k' \<in> set hs \<longrightarrow> k' \<noteq> k \<longrightarrow>
        calls (hookBody P k' h m (messages s m)) = [] \<and> contained P (exceptionHandler s) (ending (hookBody P k' h m (messages s m)))"
      "calls (processMessage P h m (messages s m)) = []"
      "contained P (exceptionHandler s) (ending (processMessage P h m (messages s m)))"
      "length hs + 7 \<le> n"
    using that refl by (rule sendMessage_self_removing)
  have d: "Some k \<notin> set (hooksOf (removeMessageHook h k s) h)" if "distinct (liveHooks (hooksOf s h))"
    using that removed_absent indexOf_None[of "hooksOf s h" "Some k"]
    by (auto simp: hooksOf_remove split: option.splits)
  have e: "Some k \<notin> set (hooksOf t' h) \<and>
      filter (isHookCall k h) (log t') = filter (isHookCall k h) (log t)"
    if "Some k \<notin> set (hooksOf t h)" "Install h k \<notin> userCalls P"
      "sendMessage P n' h' m' t = Some (r, t')"
    using hook_stays_absent[OF that(2,3,1)] by simp
  show ?thesis using a b c d e removeMessageHook_schedules[of k s h] by blast
qed

lemma hooked_messageHooks:
  "messageHooks hooked 3 = Some [Some (HookFunction 0), Some (HookObject 1)]"
  by (simp add: hooked_def installMessageHook_def initial_def)

theorem removeMessageHook_tombstones_witness:
  "sendMessage oneShotCode 9 3 0 hooked =
     Some (Inr True, (removeMessageHook 3 (HookFunction 0) hooked)
       \<lparr>log := [HookCalled (HookObject 1) 3 0,
                HookCalled (HookFunction 0) 3 0,
                ProcessMessage 3 0]\<rparr>) \<and>
   hooksOf (removeMessageHook 3 (HookFunction 0) hooked) 3 = [None, Some (HookObject 1)] \<and>
   Some (HookFunction 0) \<notin> set (hooksOf (removeMessageHook 3 (HookFunction 0) hooked) 3) \<and>
   removeMessageHook 3 (HookFunction 5) hooked = hooked"
proof -
  let ?m = 0
  have 1: "Some (HookFunction 5) \<notin> set (hooksOf hooked 3)" by (simp add: hooked_hooks)
  have 2: "Some (HookFunction 0) \<in> set (hooksOf hooked 3)" by (simp add: hooked_hooks)
  have 3: "messageHooks hooked 3 = Some [Some (HookFunction 0), Some (HookObject 1)] \<and>
      0 < length [Some (HookFunction 0), Some (HookObject 1)] \<and>
      [Some (HookFunction 0), Some (HookObject 1)] ! 0 = Some (HookFunction 0) \<and>
      (\<forall>j < length [Some (HookFunction 0), Some (HookObject 1)].
          [Some (HookFunction 0), Some (HookObject 1)] ! j = Some (HookFunction 0) \<longrightarrow> j = 0) \<and>
      hookBody oneShotCode (HookFunction 0) 3 ?m (messages hooked ?m) = \<lparr>calls = [Remove 3 (HookFunction 0)], ending = Returns True\<rparr> \<and>
      (\<forall>k'. Some k' \<in> set [Some (HookFunction 0), Some (HookObject 1)] \<longrightarrow> k' \<noteq> HookFunction 0 \<longrightarrow>
          calls (hookBody oneShotCode k' 3 ?m (messages hooked ?m)) = [] \<and>
          contained oneShotCode (exceptionHandler hooked) (ending (hookBody oneShotCode k' 3 ?m (messages hooked ?m)))) \<and>
      calls (processMessage oneShotCode 3 ?m (messages hooked ?m)) = [] \<and>
      contained oneShotCode (exceptionHandler hooked) (ending (processMessage oneShotCode 3 ?m (messages hooked ?m))) \<and>
      length [Some (HookFunction 0), Some (HookObject 1)] + 7 \<le> 9"
    by (auto simp: hooked_messageHooks hookBody_def oneShotCode_def quiet_def contained_def
        less_Suc_eq nth_Cons')
  have 4: "distinct (liveHooks (hooksOf hooked 3))" by (simp add: hooked_hooks)
  have ev: "delivery oneShotCode (exceptionHandler hooked) 3 ?m (messages hooked ?m) (rev [Some (HookFunction 0), Some (HookObject 1)])
      = [HookCalled (HookObject 1) 3 ?m, HookCalled (HookFunction 0) 3 ?m, ProcessMessage 3 ?m]"
    by (simp add: delivery_def hookBody_def oneShotCode_def quiet_def verdict_def faults_def)
  have lg: "log hooked = []" by (simp add: hooked_def initial_def)
  from removeMessageHook_tombstones[where k = "HookFunction 5" and s = hooked and h = 3]
  have A: "removeMessageHook 3 (HookFunction 5) hooked = hooked" using 1 by blast
  from removeMessageHook_tombstones[where k = "HookFunction 0" and s = hooked and h = 3
      and hs = "[Some (HookFunction 0), Some (HookObject 1)]" and i = 0 and P = oneShotCode
      and m = ?m and b = True and n = 9] 2 3 4
  have B: "sendMessage oneShotCode 9 3 ?m hooked = Some (Inr True,
        (if chainPasses oneShotCode 3 ?m (messages hooked ?m) (rev (drop (Suc 0) [Some (HookFunction 0), Some (HookObject 1)]))
         then removeMessageHook 3 (HookFunction 0) hooked else hooked)
          \<lparr>log := log hooked @ delivery oneShotCode (exceptionHandler hooked) 3 ?m (messages hooked ?m)
             (rev [Some (HookFunction 0), Some (HookObject 1)])\<rparr>)"
    and C: "Some (HookFunction 0) \<notin> set (hooksOf (removeMessageHook 3 (HookFunction 0) hooked) 3)"
    and D: "\<exists>i < length (hooksOf hooked 3). hooksOf hooked 3 ! i = Some (HookFunction 0) \<and>
          hooksOf (removeMessageHook 3 (HookFunction 0) hooked) 3 = (hooksOf hooked 3)[i := None]"
    by blast+
  have pass: "chainPasses oneShotCode 3 ?m (messages hooked ?m) (rev (drop (Suc 0) [Some (HookFunction 0), Some (HookObject 1)]))"
    by (simp add: hookBody_def oneShotCode_def quiet_def verdict_def)
  have E: "hooksOf (removeMessageHook 3 (HookFunction 0) hooked) 3 = [None, Some (HookObject 1)]"
    using D by (auto simp: hooked_hooks less_Suc_eq)
  show ?thesis using A B C E pass ev lg by simp
qed

section \<open>Scheduling\<close>

lemma fold_cleanupHooks_frame:
  "microtasks (fold cleanupHooks hs s) = microtasks s"
  "pending (fold cleanupHooks hs s) = pending s"
  "messageQueue (fold cleanupHooks hs s) = messageQueue s"
  "log (fold cleanupHooks hs s) = log s"
  "flushGuard (fold cleanupHooks hs s) = flushGuard s"
  "nextRef (fold cleanupHooks hs s) = nextRef s"
  "exceptionHandler (fold cleanupHooks hs s) = exceptionHandler s"
  "messages (fold cleanupHooks hs s) = messages s"
  by (induction hs arbitrary: s; simp add: cleanupHooks_def split: option.splits)+

lemma microtasks_simps [simp]:
  "microtasks (logEvent ev s) = microtasks s"
  "microtasks (addLast a b s) = microtasks s"
  "microtasks (installMessageHook h k s) = microtasks s"
  "microtasks (cleanupDirtySet s) = microtasks s"
  by (auto simp: logEvent_def addLast_def installMessageHook_def cleanupDirtySet_def
      fold_cleanupHooks_frame split: option.splits)

lemma pending_simps [simp]:
  "pending (logEvent ev s) = pending s"
  "pending (addLast a b s) = pending s"
  "pending (installMessageHook h k s) = pending s"
  "pending (scheduleCleanup h s) = pending s"
  "pending (clearData h s) = pending s"
  "pending (cleanupDirtySet s) = pending s"
  by (auto simp: logEvent_def addLast_def installMessageHook_def cleanupDirtySet_def
      fold_cleanupHooks_frame scheduleCleanup_def schedule_def clearData_def Let_def
      split: option.splits)

lemma scheduledRuns_scheduleCleanup [simp]:
  "scheduledRuns (scheduleCleanup h s) = scheduledRuns s"
  by (simp add: scheduledRuns_def scheduleCleanup_def schedule_def liveLoopTask_def Let_def)

lemma scheduledRuns_simps [simp]:
  "scheduledRuns (logEvent ev s) = scheduledRuns s"
  "scheduledRuns (addLast a b s) = scheduledRuns s"
  "scheduledRuns (installMessageHook h k s) = scheduledRuns s"
  "scheduledRuns (cleanupDirtySet s) = scheduledRuns s"
  "scheduledRuns (s\<lparr>pending := p\<rparr>) = scheduledRuns s"
  "scheduledRuns (s\<lparr>flushGuard := g\<rparr>) = scheduledRuns s"
  "scheduledRuns (s\<lparr>exceptionHandler := x\<rparr>) = scheduledRuns s"
  "scheduledRuns (s\<lparr>messageQueue := q\<rparr>) = scheduledRuns s"
  "scheduledRuns (s\<lparr>log := l\<rparr>) = scheduledRuns s"
  "scheduledRuns (s\<lparr>messageHooks := mh\<rparr>) = scheduledRuns s"
  "scheduledRuns (s\<lparr>messages := ms\<rparr>) = scheduledRuns s"
  by (simp_all add: scheduledRuns_def)

lemma scheduledRuns_remove [simp]: "scheduledRuns (removeMessageHook h k s) = scheduledRuns s"
  by (simp add: removeMessageHook_def split: option.splits)

lemma scheduledRuns_clearData [simp]: "scheduledRuns (clearData h s) = scheduledRuns s"
  by (simp add: clearData_def Let_def split: option.splits)

lemma singleRun_enqueue: "singleRun s \<Longrightarrow> singleRun (enqueueMessage h m s)"
  by (auto simp: singleRun_def enqueueMessage_def Let_def schedule_def scheduledRuns_def
      addLast_def liveLoopTask_def split: option.splits)

lemma singleRun_queue [simp]: "singleRun (s\<lparr>messageQueue := q\<rparr>) = singleRun s"
  by (simp add: singleRun_def)

lemma singleRun_messages [simp]: "singleRun (s\<lparr>messages := ms\<rparr>) = singleRun s"
  by (simp add: singleRun_def)

lemma singleRun_post: "singleRun s \<Longrightarrow> singleRun (snd (postMessage P h m s))"
  using post_shape[of P h m s] by (auto simp: singleRun_enqueue)

lemma singleRun_cancel:
  assumes "singleRun s" and "pending s = Some t"
  shows "scheduledRuns (cancel t s) = []"
proof -
  from assms obtain k where k: "scheduledRuns s = [k]" "tid k = t"
    by (auto simp: singleRun_def)
  have "filter liveLoopTask (map (\<lambda>k. if tid k = t then k\<lparr>rejected := True\<rparr> else k) ks)
      = filter (\<lambda>k. tid k \<noteq> t) (filter liveLoopTask ks)" for ks
    by (induction ks) (auto simp: liveLoopTask_def)
  then have "scheduledRuns (cancel t s) = filter (\<lambda>k. tid k \<noteq> t) (scheduledRuns s)"
    by (simp add: scheduledRuns_def cancel_def)
  then show ?thesis using k by simp
qed

lemma singleRun_run:
  assumes "singleRun s" and "run P n c s = Some (r, s')"
    and "permitted (\<lambda>_. True) (\<lambda>_ _. True) True s c"
  shows "singleRun s'"
proof (rule run_invariant[where I = singleRun and okc = "\<lambda>_. True" and oks = "\<lambda>_ _. True"
      and loops = True and flushes = True, OF _ _ _ _ _ _ _ _ _ _ _ _ _ _ assms(2,1,3)])
  show "singleRun (snd (postMessage P h m t))" if "singleRun t" for t h m
    using that by (rule singleRun_post)
  show "True \<and> True \<and> singleRun ((cancel t' t)\<lparr>pending := None, flushGuard := True\<rparr>)"
    if "singleRun t" "pending t = Some t'" for t t'
    using singleRun_cancel[OF that] by (simp add: singleRun_def)
qed (auto simp: singleRun_def)

lemma runLoop_clears_pending:
  "run P n RunLoop s = run P n RunLoop (s\<lparr>pending := None\<rparr>)"
  by (cases n) (simp_all add: Let_def addLast_def)

lemma singleRun_tick:
  assumes "singleRun s" and "tick P n s = Some (r, s')"
  shows "singleRun s'"
proof (cases "microtasks s")
  case Nil
  then show ?thesis using assms by (simp add: tick_def)
next
  case (Cons k ks)
  let ?s1 = "s\<lparr>microtasks := ks\<rparr>"
  show ?thesis
  proof (cases "liveLoopTask k")
    case False
    then have same: "scheduledRuns ?s1 = scheduledRuns s" using Cons by (simp add: scheduledRuns_def)
    then have s1: "singleRun ?s1" using assms(1) by (simp add: singleRun_def)
    have "s' = ?s1 \<or> s' = cleanupDirtySet ?s1"
      using assms(2) Cons False by (auto simp: tick_def Let_def liveLoopTask_def split: if_splits job.splits)
    then show ?thesis using s1 by (auto simp: singleRun_def)
  next
    case True
    then have "scheduledRuns s = k # filter liveLoopTask ks" using Cons by (simp add: scheduledRuns_def)
    then have "filter liveLoopTask ks = []" using assms(1)
      by (auto simp: singleRun_def split: option.splits)
    then have s2: "singleRun (?s1\<lparr>pending := None\<rparr>)" by (simp add: singleRun_def scheduledRuns_def)
    have "run P n RunLoop ?s1 = Some (r, s')"
      using assms(2) Cons True by (simp add: tick_def Let_def liveLoopTask_def)
    then have "run P n RunLoop (?s1\<lparr>pending := None\<rparr>) = Some (r, s')"
      using runLoop_clears_pending by simp
    then show ?thesis by (rule singleRun_run[OF s2]) simp
  qed
qed

text \<open>
  C8: at most one loop run is scheduled. \<open>singleRun\<close> holds initially and is kept by
  every call of the interface (whatever the hooks and handlers it runs do) and by
  every microtask; it bounds the scheduled runs by one. \<^verbatim>\<open>enqueueMessage\<close>
  schedules a run only when the pending handle is null and leaves a handle that is set
  as it is; a loop run starts by clearing the handle; \<^verbatim>\<open>flush\<close> cancels the
  scheduled run and clears the handle before it runs the loop.
\<close>

theorem at_most_one_loop_run_scheduled:
  "singleRun (initial ms) \<and>
   (singleRun s \<longrightarrow> length (scheduledRuns s) \<le> 1 \<and> (pending s = None \<longleftrightarrow> scheduledRuns s = [])) \<and>
   (singleRun s \<and> run P n (ApiCall c) s = Some (r, s') \<longrightarrow> singleRun s') \<and>
   (singleRun s \<and> tick P n s = Some (r, s') \<longrightarrow> singleRun s') \<and>
   (pending s \<noteq> None \<longrightarrow>
      pending (enqueueMessage h m s) = pending s \<and> microtasks (enqueueMessage h m s) = microtasks s) \<and>
   (pending s = None \<longrightarrow>
      pending (enqueueMessage h m s) = Some (nextTask s) \<and>
      microtasks (enqueueMessage h m s) =
        microtasks s @ [\<lparr>tid = nextTask s, job = RunMessageLoop, rejected = False\<rparr>]) \<and>
   runMessageLoop P n s = runMessageLoop P n (s\<lparr>pending := None\<rparr>) \<and>
   (singleRun s \<and> \<not> flushGuard s \<and> pending s = Some t \<longrightarrow>
      flush P (Suc n) s =
        andThen (runMessageLoop P n ((cancel t s)\<lparr>pending := None, flushGuard := True\<rparr>))
          (\<lambda>_ s1. Some (Inr True, s1\<lparr>flushGuard := False\<rparr>)) \<and>
      scheduledRuns ((cancel t s)\<lparr>pending := None, flushGuard := True\<rparr>) = [])"
proof -
  have a: "singleRun (initial ms)" by (simp add: singleRun_def initial_def scheduledRuns_def)
  have b: "length (scheduledRuns s) \<le> 1 \<and> (pending s = None \<longleftrightarrow> scheduledRuns s = [])" if "singleRun s"
    using that by (auto simp: singleRun_def split: option.splits)
  have c: "singleRun s'" if "singleRun s" "run P n (ApiCall c) s = Some (r, s')"
    using that by (rule singleRun_run) simp
  have d: "singleRun s'" if "singleRun s" "tick P n s = Some (r, s')"
    using that by (rule singleRun_tick)
  have e: "pending s \<noteq> None \<longrightarrow>
      pending (enqueueMessage h m s) = pending s \<and> microtasks (enqueueMessage h m s) = microtasks s"
    by (auto simp: enqueueMessage_def Let_def addLast_def)
  have f: "pending s = None \<longrightarrow>
      pending (enqueueMessage h m s) = Some (nextTask s) \<and>
      microtasks (enqueueMessage h m s) =
        microtasks s @ [\<lparr>tid = nextTask s, job = RunMessageLoop, rejected = False\<rparr>]"
    by (auto simp: enqueueMessage_def Let_def addLast_def schedule_def)
  have g: "runMessageLoop P n s = runMessageLoop P n (s\<lparr>pending := None\<rparr>)"
    by (rule runLoop_clears_pending)
  have h: "flush P (Suc n) s =
        andThen (runMessageLoop P n ((cancel t s)\<lparr>pending := None, flushGuard := True\<rparr>))
          (\<lambda>_ s1. Some (Inr True, s1\<lparr>flushGuard := False\<rparr>)) \<and>
      scheduledRuns ((cancel t s)\<lparr>pending := None, flushGuard := True\<rparr>) = []"
    if "singleRun s" "\<not> flushGuard s" "pending s = Some t"
    using that singleRun_cancel[OF that(1,3)] by simp
  show ?thesis using a b c d e f g h by blast
qed


lemma onePosted_eq:
  "onePosted = (initial plainMessages)\<lparr>pending := Some 0,
     messageQueue := [\<lparr>ref = 0, handler = Some 3, msg = Some 0\<rparr>],
     microtasks := [\<lparr>tid = 0, job = RunMessageLoop, rejected = False\<rparr>],
     nextRef := 1, nextTask := 1\<rparr>"
  by (simp add: onePosted_def postMessage_def plainMsg_def plainMessages_def enqueueMessage_def
      addLast_def schedule_def initial_def Let_def)

theorem at_most_one_loop_run_scheduled_witness:
  "singleRun onePosted \<and> length (scheduledRuns onePosted) \<le> 1 \<and>
   (\<exists>s'. tick guardedCode 6 onePosted = Some (Inr True, s') \<and> singleRun s' \<and> pending s' = None) \<and>
   (\<exists>s'. run guardedCode 1 (ApiCall (Post 3 0)) onePosted = Some (Inr True, s') \<and>
      singleRun s' \<and> pending s' = Some 0) \<and>
   pending (enqueueMessage 3 0 onePosted) = pending onePosted \<and>
   scheduledRuns ((cancel 0 onePosted)\<lparr>pending := None, flushGuard := True\<rparr>) = []"
proof -
  have sr: "singleRun onePosted"
    by (simp add: onePosted_eq singleRun_def scheduledRuns_def liveLoopTask_def initial_def)
  have p: "pending onePosted = Some 0" "\<not> flushGuard onePosted"
    by (simp_all add: onePosted_eq initial_def)
  obtain s1 where tk: "tick guardedCode 6 onePosted = Some (Inr True, s1)" and p1: "pending s1 = None"
    by (simp add: onePosted_eq initial_def tick_def eval_nat_numeral Let_def addLast_def logEvent_def
        andThen_def tryCatch_def guardedCode_def quiet_def plainMsg_def)
  obtain s2 where ap: "run guardedCode 1 (ApiCall (Post 3 0)) onePosted = Some (Inr True, s2)"
    and p2: "pending s2 = Some 0"
    by (simp add: onePosted_eq initial_def postMessage_def plainMsg_def plainMessages_def
        enqueueMessage_def addLast_def Let_def)
  from at_most_one_loop_run_scheduled[where s = onePosted and P = guardedCode and n = 6
      and c = "Post 3 0" and r = "Inr True" and s' = s1 and h = 3 and m = 0 and t = 0] sr tk p
  have A: "length (scheduledRuns onePosted) \<le> 1" "singleRun s1"
     "pending (enqueueMessage 3 0 onePosted) = pending onePosted"
     "scheduledRuns ((cancel 0 onePosted)\<lparr>pending := None, flushGuard := True\<rparr>) = []"
    by auto
  from at_most_one_loop_run_scheduled[where s = onePosted and P = guardedCode and n = 1
      and c = "Post 3 0" and r = "Inr True" and s' = s2] sr ap
  have B: "singleRun s2" by blast
  show ?thesis using sr A B tk ap p1 p2 by blast
qed

section \<open>Loop runs\<close>

lemma dequeued_append: "dequeued (a @ b) = dequeued a @ dequeued b"
  by (induction a rule: dequeued.induct) auto

lemma post_queue:
  "\<exists>b. messageQueue (snd (postMessage P h m s)) =
         messageQueue s @ (if b then [\<lparr>ref = nextRef s, handler = Some h, msg = Some m\<rparr>] else []) \<and>
       nextRef (snd (postMessage P h m s)) = (if b then Suc (nextRef s) else nextRef s)"
proof -
  obtain ms where "snd (postMessage P h m s) = s\<lparr>messages := ms\<rparr> \<or>
        snd (postMessage P h m s) = enqueueMessage h m (s\<lparr>messages := ms\<rparr>)"
    using post_shape by blast
  then show ?thesis
  proof
    assume "snd (postMessage P h m s) = s\<lparr>messages := ms\<rparr>"
    then have "messageQueue (snd (postMessage P h m s)) =
         messageQueue s @ (if False then [\<lparr>ref = nextRef s, handler = Some h, msg = Some m\<rparr>] else []) \<and>
       nextRef (snd (postMessage P h m s)) = (if False then Suc (nextRef s) else nextRef s)"
      by simp
    then show ?thesis by blast
  next
    assume "snd (postMessage P h m s) = enqueueMessage h m (s\<lparr>messages := ms\<rparr>)"
    then have "messageQueue (snd (postMessage P h m s)) =
         messageQueue s @ (if True then [\<lparr>ref = nextRef s, handler = Some h, msg = Some m\<rparr>] else []) \<and>
       nextRef (snd (postMessage P h m s)) = (if True then Suc (nextRef s) else nextRef s)"
      by (simp add: enqueueMessage_def addLast_def schedule_def Let_def)
    then show ?thesis by blast
  qed
qed

lemma queue_refs_post:
  "\<exists>b. map ref (messageQueue (snd (postMessage P h m s))) = map ref (messageQueue s) @ (if b then [nextRef s] else []) \<and>
       nextRef (snd (postMessage P h m s)) = (if b then Suc (nextRef s) else nextRef s)"
proof -
  obtain b where "messageQueue (snd (postMessage P h m s)) =
         messageQueue s @ (if b then [\<lparr>ref = nextRef s, handler = Some h, msg = Some m\<rparr>] else [])"
       "nextRef (snd (postMessage P h m s)) = (if b then Suc (nextRef s) else nextRef s)"
    using post_queue by blast
  then have "map ref (messageQueue (snd (postMessage P h m s))) = map ref (messageQueue s) @ (if b then [nextRef s] else []) \<and>
       nextRef (snd (postMessage P h m s)) = (if b then Suc (nextRef s) else nextRef s)"
    by simp
  then show ?thesis by blast
qed

lemma queue_frame [simp]:
  "messageQueue (logEvent ev s) = messageQueue s"
  "messageQueue (installMessageHook h k s) = messageQueue s"
  "messageQueue (cancel t s) = messageQueue s"
  "map ref (messageQueue (clearData h s)) = map ref (messageQueue s)"
  "nextRef (logEvent ev s) = nextRef s"
  "nextRef (installMessageHook h k s) = nextRef s"
  "nextRef (cancel t s) = nextRef s"
  "nextRef (clearData h s) = nextRef s"
  by (auto simp: logEvent_def installMessageHook_def cancel_def clearData_def clearPosted_def
      scheduleCleanup_def schedule_def Let_def split: option.splits)

lemma flushGuard_frame [simp]:
  "flushGuard (logEvent ev s) = flushGuard s"
  "flushGuard (installMessageHook h k s) = flushGuard s"
  "flushGuard (clearData h s) = flushGuard s"
  by (auto simp: logEvent_def installMessageHook_def
      clearData_def scheduleCleanup_def schedule_def Let_def split: option.splits prod.splits)

lemma upt_join: "a \<le> b \<Longrightarrow> b \<le> c \<Longrightarrow> [a..<b] @ [b..<c] = [a..<c]"
  using upt_add_eq_append[of a b "c - b"] by simp

text \<open>
  References are handed out in order, and an entry leaves the queue only at its
  front: whatever an invocation does, the references it takes off the queue followed
  by those it leaves queued are the references that were queued before, followed by
  the ones handed out since.
\<close>

lemma run_conserves:
  assumes run: "run P n c s = Some (r, s')"
    and ok: "permitted (\<lambda>_. True) (\<lambda>_ _. True) True s c"
  shows "\<exists>D. dequeued (log s') = dequeued (log s) @ D \<and>
      map ref D @ map ref (messageQueue s') = map ref (messageQueue s) @ [nextRef s ..< nextRef s'] \<and>
      nextRef s \<le> nextRef s'"
proof -
  define I where "I = (\<lambda>t::state. \<exists>D. dequeued (log t) = dequeued (log s) @ D \<and>
      map ref D @ map ref (messageQueue t) = map ref (messageQueue s) @ [nextRef s ..< nextRef t] \<and>
      nextRef s \<le> nextRef t)"
  have "I s'"
  proof (rule run_invariant[where I = I and okc = "\<lambda>_. True" and oks = "\<lambda>_ _. True"
        and loops = True and flushes = True, OF _ _ _ _ _ _ _ _ _ _ _ _ _ _ run _ ok])
    show "I (snd (postMessage P h m t))" if "I t" for t h m
    proof -
      from that obtain D where D: "dequeued (log t) = dequeued (log s) @ D"
        "map ref D @ map ref (messageQueue t) = map ref (messageQueue s) @ [nextRef s ..< nextRef t]"
        "nextRef s \<le> nextRef t"
        by (auto simp: I_def)
      obtain b where b: "map ref (messageQueue (snd (postMessage P h m t))) =
          map ref (messageQueue t) @ (if b then [nextRef t] else [])"
        "nextRef (snd (postMessage P h m t)) = (if b then Suc (nextRef t) else nextRef t)"
        using queue_refs_post by blast
      have "dequeued (log (snd (postMessage P h m t))) = dequeued (log s) @ D \<and>
        map ref D @ map ref (messageQueue (snd (postMessage P h m t))) =
          map ref (messageQueue s) @ [nextRef s ..< nextRef (snd (postMessage P h m t))] \<and>
        nextRef s \<le> nextRef (snd (postMessage P h m t))"
      proof (cases b)
        case True
        have "map ref D @ map ref (messageQueue t) @ [nextRef t] =
            map ref (messageQueue s) @ [nextRef s ..< nextRef t] @ [nextRef t]"
          using D(2) by (metis append_assoc)
        then show ?thesis using D b True by simp
      next
        case False
        then show ?thesis using D b by simp
      qed
      then show ?thesis unfolding I_def by blast
    qed
    show "I (addLast None None t)" if "I t" for t
    proof -
      from that obtain D where D: "dequeued (log t) = dequeued (log s) @ D"
        "map ref D @ map ref (messageQueue t) = map ref (messageQueue s) @ [nextRef s ..< nextRef t]"
        "nextRef s \<le> nextRef t"
        by (auto simp: I_def)
      have "map ref D @ map ref (messageQueue t) @ [nextRef t] =
            map ref (messageQueue s) @ [nextRef s ..< nextRef t] @ [nextRef t]"
        using D(2) by (metis append_assoc)
      then have "dequeued (log (addLast None None t)) = dequeued (log s) @ D \<and>
        map ref D @ map ref (messageQueue (addLast None None t)) =
          map ref (messageQueue s) @ [nextRef s ..< nextRef (addLast None None t)] \<and>
        nextRef s \<le> nextRef (addLast None None t)"
        using D by (simp add: addLast_def)
      then show ?thesis unfolding I_def by blast
    qed
    show "I (logEvent (Dequeued p) (t\<lparr>messageQueue := rest\<rparr>)) \<and>
        (\<forall>h m. handler p = Some h \<longrightarrow> msg p = Some m \<longrightarrow> True)"
      if "I t" "messageQueue t = p # rest" for t p rest
    proof -
      from that obtain D where D: "dequeued (log t) = dequeued (log s) @ D"
        "map ref D @ ref p # map ref rest = map ref (messageQueue s) @ [nextRef s ..< nextRef t]"
        "nextRef s \<le> nextRef t"
        by (auto simp: I_def)
      have "dequeued (log (logEvent (Dequeued p) (t\<lparr>messageQueue := rest\<rparr>))) = dequeued (log s) @ (D @ [p]) \<and>
        map ref (D @ [p]) @ map ref (messageQueue (logEvent (Dequeued p) (t\<lparr>messageQueue := rest\<rparr>))) =
          map ref (messageQueue s) @ [nextRef s ..< nextRef (logEvent (Dequeued p) (t\<lparr>messageQueue := rest\<rparr>))] \<and>
        nextRef s \<le> nextRef (logEvent (Dequeued p) (t\<lparr>messageQueue := rest\<rparr>))"
        using D by (simp add: logEvent_def dequeued_append)
      then have "I (logEvent (Dequeued p) (t\<lparr>messageQueue := rest\<rparr>))" unfolding I_def by blast
      then show ?thesis by simp
    qed
    show "I s" by (simp add: I_def)
  qed (auto simp: I_def dequeued_append)
  then show ?thesis by (simp add: I_def)
qed

lemma messageLoop_ends_at_sentinel:
  "run P n (MessageLoop sen) s = Some (Inr v, s') \<Longrightarrow>
     \<exists>D p. dequeued (log s') = dequeued (log s) @ D @ [p] \<and> ref p = sen"
proof (induction n arbitrary: s)
  case 0
  then show ?case by simp
next
  case (Suc n)
  from Suc.prems obtain p rest where q: "messageQueue s = p # rest"
    by (cases "messageQueue s") auto
  let ?s1 = "logEvent (Dequeued p) (s\<lparr>messageQueue := rest\<rparr>)"
  have d1: "dequeued (log ?s1) = dequeued (log s) @ [p]" by (simp add: logEvent_def dequeued_append)
  show ?case
  proof (cases "ref p = sen")
    case True
    then have "s' = ?s1" using Suc.prems q by (simp add: Let_def)
    then have "dequeued (log s') = dequeued (log s) @ [] @ [p] \<and> ref p = sen" using d1 True by simp
    then show ?thesis by blast
  next
    case False
    have again: ?thesis if "run P n (MessageLoop sen) u = Some (Inr v, s')"
      "dequeued (log u) = dequeued (log ?s1) @ D2" for u D2
    proof -
      from Suc.IH[OF that(1)] obtain D p' where
        "dequeued (log s') = dequeued (log u) @ D @ [p']" "ref p' = sen" by blast
      then have "dequeued (log s') = dequeued (log s) @ ([p] @ D2 @ D) @ [p'] \<and> ref p' = sen"
        using that(2) d1 by simp
      then show ?thesis by blast
    qed
    show ?thesis
    proof (cases "handler p")
      case None
      then have "run P n (MessageLoop sen) ?s1 = Some (Inr v, s')"
        using Suc.prems q False by (simp add: Let_def)
      then show ?thesis using again[of ?s1 "[]"] by simp
    next
      case (Some h)
      note h = Some
      show ?thesis
      proof (cases "msg p")
        case None
        then have "run P n (MessageLoop sen) ?s1 = Some (Inr v, s')"
          using Suc.prems q False h by (simp add: Let_def)
        then show ?thesis using again[of ?s1 "[]"] by simp
      next
        case (Some m)
        from Suc.prems q False h Some
        obtain w s2 where send: "run P n (SendMessage h m) ?s1 = Some (Inr w, s2)"
          and loop: "run P n (MessageLoop sen) s2 = Some (Inr v, s')"
          by (auto simp: Let_def andThen_Some)
        from run_conserves[OF send] obtain D2 where "dequeued (log s2) = dequeued (log ?s1) @ D2"
          by auto
        then show ?thesis using again[OF loop] by blast
      qed
    qed
  qed
qed

lemma split_at_unique:
  "a \<notin> set us \<Longrightarrow> a \<notin> set vs \<Longrightarrow> xs @ a # ys = us @ a # vs \<Longrightarrow> xs = us \<and> ys = vs"
proof (induction xs arbitrary: us)
  case Nil
  then show ?case by (cases us) auto
next
  case (Cons x xs)
  then show ?case by (cases us) auto
qed

lemma runMessageLoop_bounded:
  assumes al: "allocated s" and run: "runMessageLoop P n s = Some (Inr v, s')"
  shows "(messageQueue s = [] \<longrightarrow> s' = s\<lparr>pending := None\<rparr>) \<and>
     (messageQueue s \<noteq> [] \<longrightarrow>
        map ref (dequeued (log s')) = map ref (dequeued (log s)) @ map ref (messageQueue s) @ [nextRef s] \<and>
        map ref (messageQueue s') = [Suc (nextRef s) ..< nextRef s'])"
proof (cases n)
  case 0
  then show ?thesis using run by simp
next
  case (Suc n')
  show ?thesis
  proof (cases "messageQueue s = []")
    case True
    then show ?thesis using run Suc by (auto simp: Let_def)
  next
    case False
    let ?N = "nextRef s"
    let ?t = "addLast None None (s\<lparr>pending := None\<rparr>)"
    have loop: "run P n' (MessageLoop ?N) ?t = Some (Inr v, s')"
      using run Suc False by (simp add: Let_def)
    have t: "map ref (messageQueue ?t) = map ref (messageQueue s) @ [?N]" "nextRef ?t = Suc ?N"
      "dequeued (log ?t) = dequeued (log s)"
      by (simp_all add: addLast_def)
    from run_conserves[OF loop] obtain D where D: "dequeued (log s') = dequeued (log ?t) @ D"
      "map ref D @ map ref (messageQueue s') = map ref (messageQueue ?t) @ [nextRef ?t ..< nextRef s']"
      by auto
    from messageLoop_ends_at_sentinel[OF loop] obtain D2 p where
      p: "dequeued (log s') = dequeued (log ?t) @ D2 @ [p]" "ref p = ?N" by blast
    have "D = D2 @ [p]" using D(1) p(1) by simp
    then have "map ref D2 @ ?N # map ref (messageQueue s') =
        map ref (messageQueue s) @ ?N # [Suc ?N ..< nextRef s']"
      using D(2) p(2) t by simp
    moreover have "?N \<notin> set (map ref (messageQueue s))" using al by (force simp: allocated_def)
    moreover have "?N \<notin> set [Suc ?N ..< nextRef s']" by simp
    ultimately have "map ref D2 = map ref (messageQueue s) \<and> map ref (messageQueue s') = [Suc ?N ..< nextRef s']"
      by (intro split_at_unique) auto
    then show ?thesis using False p t by simp
  qed
qed

lemma allocated_run:
  assumes "allocated s" and "run P n c s = Some (r, s')"
    and "permitted (\<lambda>_. True) (\<lambda>_ _. True) True s c"
  shows "allocated s'"
proof (rule run_invariant[where I = allocated and okc = "\<lambda>_. True" and oks = "\<lambda>_ _. True"
      and loops = True and flushes = True, OF _ _ _ _ _ _ _ _ _ _ _ _ _ _ assms(2,1,3)])
  show "allocated (snd (postMessage P h m t))" if "allocated t" for t h m
  proof -
    obtain b where "map ref (messageQueue (snd (postMessage P h m t))) = map ref (messageQueue t) @ (if b then [nextRef t] else [])"
      "nextRef (snd (postMessage P h m t)) = (if b then Suc (nextRef t) else nextRef t)"
      using queue_refs_post by blast
    then show ?thesis using that by (cases b) (auto simp: allocated_def)
  qed
  show "allocated (logEvent (Dequeued p) (t\<lparr>messageQueue := rest\<rparr>)) \<and>
      (\<forall>h m. handler p = Some h \<longrightarrow> msg p = Some m \<longrightarrow> True)"
    if "allocated t" "messageQueue t = p # rest" for t p rest
    using that by (simp add: allocated_def logEvent_def)
qed (auto simp: allocated_def addLast_def less_Suc_eq)



lemma engineFree_calls:
  assumes "userCalls P = {}"
  shows "calls (hookBody P k h m c) = []" "calls (processMessage P h m c) = []"
proof -
  have "set (calls (hookBody P k h m c)) \<subseteq> userCalls P" "set (calls (processMessage P h m c)) \<subseteq> userCalls P"
    using userCalls_I by blast+
  then show "calls (hookBody P k h m c) = []" "calls (processMessage P h m c) = []"
    using assms by simp_all
qed

lemma deliveryOf_log [simp]: "deliveryOf P (s\<lparr>log := l\<rparr>) = deliveryOf P s"
  by (simp add: deliveryOf_def fun_eq_iff split: option.splits)

lemma deliveryOf_queue [simp]: "deliveryOf P (s\<lparr>messageQueue := q\<rparr>) = deliveryOf P s"
  by (simp add: deliveryOf_def fun_eq_iff split: option.splits)

lemma deliveryOf_cases:
  "handler p = None \<Longrightarrow> deliveryOf P t p = [Dequeued p]"
  "msg p = None \<Longrightarrow> deliveryOf P t p = [Dequeued p]"
  "handler p = Some h \<Longrightarrow> msg p = Some m \<Longrightarrow>
     deliveryOf P t p = Dequeued p # delivery P (exceptionHandler t) h m (messages t m) (rev (hooksOf t h))"
  by (simp_all add: deliveryOf_def split: option.splits)

lemma messageLoop_engineFree:
  assumes ef: "userCalls P = {}" and tame: "\<forall>y. tame P (CustomHandler y)"
    and q: "messageQueue t = q @ [sentinel]" and sen: "ref sentinel = sen"
    and fresh: "\<forall>p \<in> set q. ref p \<noteq> sen"
    and H: "\<forall>h. length (hooksOf t h) \<le> H"
    and fuel: "length q + H + 6 \<le> n"
  shows "run P n (MessageLoop sen) t =
     Some (Inr True, t\<lparr>messageQueue := [],
        log := log t @ concat (map (deliveryOf P t) q) @ [Dequeued sentinel]\<rparr>)"
  using q fresh H fuel
proof (induction q arbitrary: t n)
  case Nil
  then obtain n' where "n = Suc n'" by (cases n) auto
  then show ?case using Nil sen by (simp add: Let_def logEvent_def)
next
  case (Cons p q')
  obtain n' where n: "n = Suc n'" using Cons.prems(4) by (cases n) auto
  have ct: "contained P x en" for x en
    using tame by (cases x) (auto simp: contained_def tame_def)
  let ?s1 = "logEvent (Dequeued p) (t\<lparr>messageQueue := q' @ [sentinel]\<rparr>)"
  have fuel': "length q' + H + 6 \<le> n'" using Cons.prems(4) n by simp
  have IH: "run P n' (MessageLoop sen) u =
     Some (Inr True, u\<lparr>messageQueue := [],
        log := log u @ concat (map (deliveryOf P u) q') @ [Dequeued sentinel]\<rparr>)"
    if "messageQueue u = q' @ [sentinel]" "\<forall>h. length (hooksOf u h) \<le> H" for u
    using Cons.IH[OF that(1) _ that(2) fuel'] Cons.prems(2) by simp
  have p: "ref p \<noteq> sen" using Cons.prems(2) by simp
  have step: "run P n (MessageLoop sen) t =
      (case (handler p, msg p) of
         (Some h, Some m) \<Rightarrow> andThen (run P n' (SendMessage h m) ?s1) (\<lambda>_ s2. run P n' (MessageLoop sen) s2)
       | _ \<Rightarrow> run P n' (MessageLoop sen) ?s1)"
    using n Cons.prems(1) p by (simp add: Let_def)
  have skip: "run P n' (MessageLoop sen) ?s1 =
      Some (Inr True, t\<lparr>messageQueue := [],
        log := log t @ Dequeued p # concat (map (deliveryOf P t) q') @ [Dequeued sentinel]\<rparr>)"
    using IH[of ?s1] Cons.prems(3) by (simp add: logEvent_def)
  show ?case
  proof (cases "handler p")
    case None
    then show ?thesis using step skip by (simp add: deliveryOf_cases)
  next
    case (Some h)
    note h = Some
    show ?thesis
    proof (cases "msg p")
      case None
      then show ?thesis using step skip h by (simp add: deliveryOf_cases)
    next
      case (Some m)
      let ?d = "delivery P (exceptionHandler t) h m (messages t m) (rev (hooksOf t h))"
      let ?s2 = "?s1\<lparr>log := log ?s1 @ ?d\<rparr>"
      have "length (hooksOf ?s1 h) + 5 \<le> n'" using Cons.prems(3)[THEN spec, of h] fuel'
        by (simp add: logEvent_def)
      then have "run P n' (SendMessage h m) ?s1 =
          Some (Inr True, ?s1\<lparr>log := log ?s1 @ delivery P (exceptionHandler ?s1) h m (messages ?s1 m) (rev (hooksOf ?s1 h))\<rparr>)"
        by (intro sendMessage_engineFree) (auto simp: engineFree_calls[OF ef] ct)
      then have send: "run P n' (SendMessage h m) ?s1 = Some (Inr True, ?s2)"
        by (simp add: logEvent_def)
      have "run P n' (MessageLoop sen) ?s2 =
         Some (Inr True, ?s2\<lparr>messageQueue := [],
            log := log ?s2 @ concat (map (deliveryOf P ?s2) q') @ [Dequeued sentinel]\<rparr>)"
        by (rule IH) (use Cons.prems(3) in \<open>auto simp: logEvent_def\<close>)
      then show ?thesis using step send h Some
        by (simp add: andThen_def deliveryOf_cases logEvent_def)
    qed
  qed
qed

lemma runMessageLoop_engineFree:
  assumes ef: "userCalls P = {}" and tame: "\<forall>y. tame P (CustomHandler y)"
    and al: "allocated s" and ne: "messageQueue s \<noteq> []"
    and H: "\<forall>h. length (hooksOf s h) \<le> H"
    and fuel: "length (messageQueue s) + H + 7 \<le> n"
  shows "runMessageLoop P n s =
     Some (Inr True, s\<lparr>pending := None, messageQueue := [], nextRef := Suc (nextRef s),
        log := log s @ concat (map (deliveryOf P s) (messageQueue s)) @
          [Dequeued \<lparr>ref = nextRef s, handler = None, msg = None\<rparr>]\<rparr>)"
proof -
  obtain n' where n: "n = Suc n'" using fuel by (cases n) auto
  let ?sen = "\<lparr>ref = nextRef s, handler = None, msg = None\<rparr>"
  let ?t = "addLast None None (s\<lparr>pending := None\<rparr>)"
  have 1: "messageQueue ?t = messageQueue s @ [?sen]" by (simp add: addLast_def)
  have 2: "\<forall>p \<in> set (messageQueue s). ref p \<noteq> nextRef s" using al by (force simp: allocated_def)
  have 3: "\<forall>h. length (hooksOf ?t h) \<le> H" using H by simp
  have 4: "length (messageQueue s) + H + 6 \<le> n'" using fuel n by simp
  have d: "deliveryOf P ?t = deliveryOf P s"
    by (simp add: deliveryOf_def fun_eq_iff addLast_def hooksOf_def split: option.splits)
  from messageLoop_engineFree[OF ef tame 1 _ 2 3 4]
  show ?thesis using n ne d by (simp add: Let_def addLast_def)
qed
text \<open>
  C3, amended: a loop run that returns has taken off the queue exactly the entries
  that were queued when it began, in their order, and then its sentinel; what is
  queued afterwards are the entries enqueued during the run, none of which was taken
  off. With an empty queue the run only clears the pending handle, and no sentinel is
  appended. (The references of the queued entries are references that were handed
  out: this holds initially and is kept by every invocation.) When hooks and handlers
  make no engine call the run returns, and it delivers the live entries in queue order
  and skips the others.
\<close>

theorem loop_run_is_bounded_by_its_sentinel:
  "(allocated s \<and> runMessageLoop P n s = Some (Inr v, s') \<longrightarrow>
      (messageQueue s = [] \<longrightarrow> s' = s\<lparr>pending := None\<rparr>) \<and>
      (messageQueue s \<noteq> [] \<longrightarrow>
         map ref (dequeued (log s')) = map ref (dequeued (log s)) @ map ref (messageQueue s) @ [nextRef s] \<and>
         map ref (messageQueue s') = [Suc (nextRef s) ..< nextRef s']) \<and>
      allocated s') \<and>
   allocated (initial ms) \<and>
   (allocated s \<and> run P n c s = Some (r, t) \<and> permitted (\<lambda>_. True) (\<lambda>_ _. True) True s c \<longrightarrow>
      allocated t) \<and>
   (userCalls P = {} \<and> (\<forall>y. tame P (CustomHandler y)) \<and> allocated s \<and> messageQueue s \<noteq> [] \<and>
    (\<forall>h. length (hooksOf s h) \<le> H) \<and> length (messageQueue s) + H + 7 \<le> n \<longrightarrow>
      runMessageLoop P n s =
        Some (Inr True, s\<lparr>pending := None, messageQueue := [], nextRef := Suc (nextRef s),
          log := log s @ concat (map (deliveryOf P s) (messageQueue s)) @
            [Dequeued \<lparr>ref = nextRef s, handler = None, msg = None\<rparr>]\<rparr>))"
proof -
  have a: "(messageQueue s = [] \<longrightarrow> s' = s\<lparr>pending := None\<rparr>) \<and>
      (messageQueue s \<noteq> [] \<longrightarrow>
         map ref (dequeued (log s')) = map ref (dequeued (log s)) @ map ref (messageQueue s) @ [nextRef s] \<and>
         map ref (messageQueue s') = [Suc (nextRef s) ..< nextRef s']) \<and>
      allocated s'"
    if al: "allocated s" and run: "runMessageLoop P n s = Some (Inr v, s')"
  proof -
    have "allocated (s\<lparr>pending := None\<rparr>)" using al by (simp add: allocated_def)
    moreover have "runMessageLoop P n (s\<lparr>pending := None\<rparr>) = Some (Inr v, s')"
      using run runLoop_clears_pending by simp
    ultimately have "allocated s'" by (rule allocated_run) simp
    then show ?thesis using runMessageLoop_bounded[OF al run] by blast
  qed
  have i: "allocated (initial ms)" by (simp add: allocated_def initial_def)
  have k: "allocated t"
    if "allocated s" "run P n c s = Some (r, t)" "permitted (\<lambda>_. True) (\<lambda>_ _. True) True s c"
    using that by (rule allocated_run)
  have b: "runMessageLoop P n s =
        Some (Inr True, s\<lparr>pending := None, messageQueue := [], nextRef := Suc (nextRef s),
          log := log s @ concat (map (deliveryOf P s) (messageQueue s)) @
            [Dequeued \<lparr>ref = nextRef s, handler = None, msg = None\<rparr>]\<rparr>)"
    if "userCalls P = {} \<and> (\<forall>y. tame P (CustomHandler y)) \<and> allocated s \<and> messageQueue s \<noteq> [] \<and>
      (\<forall>h. length (hooksOf s h) \<le> H) \<and> length (messageQueue s) + H + 7 \<le> n"
    by (rule runMessageLoop_engineFree[where H = H]) (use that in blast)+
  show ?thesis
  proof (intro conjI)
    show "allocated s \<and> runMessageLoop P n s = Some (Inr v, s') \<longrightarrow>
      (messageQueue s = [] \<longrightarrow> s' = s\<lparr>pending := None\<rparr>) \<and>
      (messageQueue s \<noteq> [] \<longrightarrow>
         map ref (dequeued (log s')) = map ref (dequeued (log s)) @ map ref (messageQueue s) @ [nextRef s] \<and>
         map ref (messageQueue s') = [Suc (nextRef s) ..< nextRef s']) \<and>
      allocated s'"
      using a by (intro impI) (elim conjE)
    show "allocated (initial ms)" by (rule i)
    show "allocated s \<and> run P n c s = Some (r, t) \<and> permitted (\<lambda>_. True) (\<lambda>_ _. True) True s c \<longrightarrow>
      allocated t"
      using k by (intro impI) (elim conjE)
    show "userCalls P = {} \<and> (\<forall>y. tame P (CustomHandler y)) \<and> allocated s \<and> messageQueue s \<noteq> [] \<and>
      (\<forall>h. length (hooksOf s h) \<le> H) \<and> length (messageQueue s) + H + 7 \<le> n \<longrightarrow>
      runMessageLoop P n s =
        Some (Inr True, s\<lparr>pending := None, messageQueue := [], nextRef := Suc (nextRef s),
          log := log s @ concat (map (deliveryOf P s) (messageQueue s)) @
            [Dequeued \<lparr>ref = nextRef s, handler = None, msg = None\<rparr>]\<rparr>)"
      using b by (intro impI)
  qed
qed

lemma goPosted_eq:
  "goPosted = (initial plainMessages)\<lparr>pending := Some 0,
     messageQueue := [\<lparr>ref = 0, handler = Some 1, msg = Some 4\<rparr>],
     microtasks := [\<lparr>tid = 0, job = RunMessageLoop, rejected = False\<rparr>],
     nextRef := 1, nextTask := 1\<rparr>"
  by (simp add: goPosted_def postMessage_def plainMsg_def plainMessages_def enqueueMessage_def
      addLast_def schedule_def initial_def Let_def)

lemma rethrowing_eq:
  "rethrowing = (initial plainMessages)\<lparr>pending := Some 0,
     messageQueue := [\<lparr>ref = 0, handler = Some 1, msg = Some 1\<rparr>,
                      \<lparr>ref = 1, handler = Some 2, msg = Some 2\<rparr>],
     exceptionHandler := CustomHandler 0,
     microtasks := [\<lparr>tid = 0, job = RunMessageLoop, rejected = False\<rparr>],
     nextRef := 2, nextTask := 1\<rparr>"
  by (simp add: rethrowing_def postMessage_def plainMsg_def plainMessages_def enqueueMessage_def
      addLast_def schedule_def initial_def Let_def)

text \<open>
  C3, as stated, fails when the exception handler throws: the run ends at the first
  fault, and an entry that was queued when the run began stays queued behind it,
  together with the sentinel.
\<close>

theorem loop_run_stops_at_fault_counterexample:
  "runMessageLoop rethrowingCode 6 rethrowing =
     Some (Inl (UserError 1),
       rethrowing\<lparr>pending := None,
         messageQueue := [\<lparr>ref = 1, handler = Some 2, msg = Some 2\<rparr>,
                          \<lparr>ref = 2, handler = None, msg = None\<rparr>],
         nextRef := 3,
         log := [Dequeued \<lparr>ref = 0, handler = Some 1, msg = Some 1\<rparr>,
                 ProcessMessage 1 1,
                 ExceptionHandled (CustomHandler 0) (UserError 1)]\<rparr>)"
  by (simp add: rethrowing_eq initial_def eval_nat_numeral Let_def addLast_def logEvent_def
      andThen_def tryCatch_def rethrowingCode_def faultyCode_def quiet_def)

text \<open>
  A handler that posts and then calls \<^verbatim>\<open>flush\<close> during a scheduled run: the guard
  of \<^verbatim>\<open>flush\<close> is not set, the nested run passes the sentinel of the outer run as
  a cleared entry and delivers the message posted during the outer run; the outer
  loop then finds the queue empty and throws on \<^verbatim>\<open>undefined\<close>. The outer run does
  not return.
\<close>

lemma nested_flush_consumes_the_sentinel:
  "tick flushingCode 16 goPosted =
     Some (Inl TypeError,
       goPosted\<lparr>pending := None, messageQueue := [],
         microtasks := [\<lparr>tid = 1, job = RunMessageLoop, rejected = True\<rparr>],
         nextRef := 4, nextTask := 2,
         log := [Dequeued \<lparr>ref = 0, handler = Some 1, msg = Some 4\<rparr>,
                 ProcessMessage 1 4,
                 Dequeued \<lparr>ref = 1, handler = None, msg = None\<rparr>,
                 Dequeued \<lparr>ref = 2, handler = Some 2, msg = Some 5\<rparr>,
                 ProcessMessage 2 5,
                 Dequeued \<lparr>ref = 3, handler = None, msg = None\<rparr>]\<rparr>)"
  by (simp add: goPosted_eq initial_def tick_def eval_nat_numeral Let_def addLast_def logEvent_def
      andThen_def tryCatch_def flushingCode_def quiet_def plainMsg_def plainMessages_def
      postMessage_def enqueueMessage_def schedule_def cancel_def)

theorem loop_run_is_bounded_by_its_sentinel_witness:
  "\<exists>s'. runMessageLoop repostingCode 7 goPosted = Some (Inr True, s') \<and>
     map ref (dequeued (log s')) = [0, 1] \<and> map ref (messageQueue s') = [2] \<and> nextRef s' = 3"
proof -
  have al: "allocated goPosted" by (simp add: allocated_def goPosted_eq initial_def)
  obtain s' where run: "runMessageLoop repostingCode 7 goPosted = Some (Inr True, s')"
    and nr: "nextRef s' = 3"
    by (simp add: goPosted_eq initial_def eval_nat_numeral Let_def addLast_def logEvent_def
      andThen_def tryCatch_def repostingCode_def flushingCode_def quiet_def plainMsg_def
      plainMessages_def postMessage_def enqueueMessage_def schedule_def)
  have q: "messageQueue goPosted \<noteq> []" "map ref (messageQueue goPosted) = [0]" "nextRef goPosted = 1"
    "log goPosted = []"
    by (simp_all add: goPosted_eq initial_def)
  from loop_run_is_bounded_by_its_sentinel[where P = repostingCode and s = goPosted and n = 7
      and v = True and s' = s', THEN conjunct1] al run q nr
  have "map ref (dequeued (log s')) = [0, 1] \<and> map ref (messageQueue s') = [2]"
    by (simp add: upt_rec)
  then show ?thesis using run nr by (intro exI[of _ s']) simp
qed


section \<open>Flushing\<close>






lemma flushGuard_cleanupDirtySet [simp]: "flushGuard (cleanupDirtySet s) = flushGuard s"
proof -
  have "flushGuard (fold cleanupHooks ds s) = flushGuard s" for ds
    by (induction ds arbitrary: s) (auto simp: cleanupHooks_def split: option.splits)
  then show ?thesis by (simp add: cleanupDirtySet_def)
qed






text \<open>
  The flush that the fault ended has left the guard set (the source clears it after
  the call of \<^verbatim>\<open>runMessageLoop\<close>, with no \<^verbatim>\<open>finally\<close>). From then on no flush is
  executing and the guard is set: a message is posted, a run is scheduled for it, and
  \<^verbatim>\<open>flush\<close> does nothing.
\<close>

lemma aborted_flush_leaves_guard_set:
  "\<exists>s1 s2. flush rethrowingCode 7 rethrowing = Some (Inl (UserError 1), s1) \<and>
     s2 = snd (postMessage rethrowingCode 2 3 s1) \<and>
     flushGuard s2 \<and> pending s2 = Some 1 \<and> map tid (scheduledRuns s2) = [1] \<and>
     map ref (messageQueue s2) = [1, 2, 3] \<and>
     flush rethrowingCode (Suc n) s2 = Some (Inr True, s2)"
proof -
  define s1 where "s1 = rethrowing\<lparr>pending := None, flushGuard := True,
         messageQueue := [\<lparr>ref = 1, handler = Some 2, msg = Some 2\<rparr>,
                          \<lparr>ref = 2, handler = None, msg = None\<rparr>],
         microtasks := [\<lparr>tid = 0, job = RunMessageLoop, rejected = True\<rparr>],
         nextRef := 3,
         log := [Dequeued \<lparr>ref = 0, handler = Some 1, msg = Some 1\<rparr>,
                 ProcessMessage 1 1,
                 ExceptionHandled (CustomHandler 0) (UserError 1)]\<rparr>"
  define s2 where "s2 = snd (postMessage rethrowingCode 2 3 s1)"
  have f: "flush rethrowingCode 7 rethrowing = Some (Inl (UserError 1), s1)"
    unfolding s1_def
    by (simp add: rethrowing_eq initial_def eval_nat_numeral Let_def addLast_def logEvent_def
      andThen_def tryCatch_def rethrowingCode_def faultyCode_def quiet_def cancel_def)
  have s: "flushGuard s2" "pending s2 = Some 1"
    "map tid (scheduledRuns s2) = [1]"
    "map ref (messageQueue s2) = [1, 2, 3]"
    by (simp_all add: s2_def s1_def rethrowing_eq initial_def postMessage_def plainMessages_def
        plainMsg_def enqueueMessage_def addLast_def schedule_def Let_def scheduledRuns_def
        liveLoopTask_def)
  have fl: "flush rethrowingCode (Suc n) s2 = Some (Inr True, s2)"
    using s(1,2) by simp
  show ?thesis by (intro exI[of _ s1] exI[of _ s2] conjI f s2_def s fl)
qed



section \<open>Clearing the data of a handler\<close>

lemma handlers_post:
  "set (map handler (messageQueue (snd (postMessage P h m s)))) \<subseteq> insert (Some h) (set (map handler (messageQueue s)))"
proof -
  obtain b where "messageQueue (snd (postMessage P h m s)) =
         messageQueue s @ (if b then [\<lparr>ref = nextRef s, handler = Some h, msg = Some m\<rparr>] else [])"
    using post_queue by blast
  then show ?thesis by (cases b) auto
qed

lemma handlers_clearData:
  "set (map handler (messageQueue (clearData h s))) \<subseteq> insert None (set (map handler (messageQueue s)) - {Some h})"
  by (auto simp: clearData_def clearPosted_def scheduleCleanup_def schedule_def Let_def
      split: option.splits if_splits)

lemma nothing_delivered:
  assumes quiet: "\<forall>m. Send h m \<notin> userCalls P \<and> Post h m \<notin> userCalls P"
    and none: "noneQueuedFor h s"
    and run: "run P n c s = Some (r, s')"
    and ok: "permitted (\<lambda>c. \<forall>m. c \<noteq> Send h m \<and> c \<noteq> Post h m) (\<lambda>h' m. h' \<noteq> h) True s c"
  shows "noneQueuedFor h s' \<and> filter (concerns h) (log s') = filter (concerns h) (log s)"
proof -
  define I where "I = (\<lambda>t::state. noneQueuedFor h t \<and>
      filter (concerns h) (log t) = filter (concerns h) (log s))"
  have "I s'"
  proof (rule run_invariant[where I = I and okc = "\<lambda>c. \<forall>m. c \<noteq> Send h m \<and> c \<noteq> Post h m"
        and oks = "\<lambda>h' m. h' \<noteq> h" and loops = True and flushes = True,
        OF _ _ _ _ _ _ _ _ _ _ _ _ _ _ run _ ok])
    show "\<forall>m. c \<noteq> Send h m \<and> c \<noteq> Post h m" if "c \<in> userCalls P" for c
      using that quiet by auto
    show "I (snd (postMessage P h' m t))" if "I t" "\<forall>ma. Post h' m \<noteq> Send h ma \<and> Post h' m \<noteq> Post h ma" for t h' m
      using that handlers_post[of P h' m t] by (auto simp: I_def noneQueuedFor_def)
    show "I (clearData h' t)" if "I t" for t h'
      using that handlers_clearData[of h' t] by (auto simp: I_def noneQueuedFor_def)
    show "I (logEvent (Dequeued p) (t\<lparr>messageQueue := rest\<rparr>)) \<and>
        (\<forall>h' m. handler p = Some h' \<longrightarrow> msg p = Some m \<longrightarrow> h' \<noteq> h)"
      if "I t" "messageQueue t = p # rest" for t p rest
      using that by (auto simp: I_def noneQueuedFor_def logEvent_def)
    show "I s" using none by (simp add: I_def)
  qed (auto simp: I_def noneQueuedFor_def addLast_def)
  then show ?thesis by (simp add: I_def)
qed

lemma entries_post:
  "set (map (\<lambda>p. (ref p, handler p)) (messageQueue (snd (postMessage P h m s)))) \<subseteq>
     insert (nextRef s, Some h) (set (map (\<lambda>p. (ref p, handler p)) (messageQueue s))) \<and>
   nextRef s \<le> nextRef (snd (postMessage P h m s))"
proof -
  obtain b where "messageQueue (snd (postMessage P h m s)) =
         messageQueue s @ (if b then [\<lparr>ref = nextRef s, handler = Some h, msg = Some m\<rparr>] else [])"
       "nextRef (snd (postMessage P h m s)) = (if b then Suc (nextRef s) else nextRef s)"
    using post_queue by blast
  then show ?thesis by (cases b) auto
qed

lemma entries_clearData:
  "p \<in> set (messageQueue (clearData h s)) \<Longrightarrow>
     p \<in> set (messageQueue s) \<or> handler p = None"
  by (auto simp: clearData_def clearPosted_def scheduleCleanup_def schedule_def Let_def
      split: option.splits if_splits)

lemma stale_not_dequeued:
  assumes none: "noneQueuedFor h s"
    and run: "run P n c s = Some (r, s')"
    and ok: "permitted (\<lambda>c. True) (\<lambda>h' m. True) True s c"
  shows "filter (stale h (nextRef s)) (log s') = filter (stale h (nextRef s)) (log s)"
proof -
  define N where "N = nextRef s"
  define I where "I = (\<lambda>t::state. N \<le> nextRef t \<and>
      (\<forall>p \<in> set (messageQueue t). handler p = Some h \<longrightarrow> N \<le> ref p) \<and>
      filter (stale h N) (log t) = filter (stale h N) (log s))"
  have "I s'"
  proof (rule run_invariant[where I = I and okc = "\<lambda>c. True"
        and oks = "\<lambda>h' m. True" and loops = True and flushes = True,
        OF _ _ _ _ _ _ _ _ _ _ _ _ _ _ run _ ok])
    show "I (snd (postMessage P h' m t))" if "I t" for t h' m
    proof -
      have "N \<le> ref p" if mem: "p \<in> set (messageQueue (snd (postMessage P h' m t)))" and hp: "handler p = Some h" for p
      proof -
        from mem have "(ref p, handler p) \<in> set (map (\<lambda>p. (ref p, handler p)) (messageQueue (snd (postMessage P h' m t))))"
          by auto
        then have "(ref p, handler p) = (nextRef t, Some h') \<or>
            (ref p, handler p) \<in> set (map (\<lambda>p. (ref p, handler p)) (messageQueue t))"
          using entries_post[of P h' m t] by blast
        then show ?thesis
        proof
          assume "(ref p, handler p) = (nextRef t, Some h')"
          then show ?thesis using \<open>I t\<close> by (simp add: I_def)
        next
          assume "(ref p, handler p) \<in> set (map (\<lambda>p. (ref p, handler p)) (messageQueue t))"
          then obtain p' where "p' \<in> set (messageQueue t)" "ref p' = ref p" "handler p' = handler p"
            by auto
          then show ?thesis using \<open>I t\<close> hp by (auto simp: I_def)
        qed
      qed
      moreover have "N \<le> nextRef (snd (postMessage P h' m t))"
        using entries_post[of P h' m t] \<open>I t\<close> by (simp add: I_def)
      ultimately show ?thesis using \<open>I t\<close> by (simp add: I_def)
    qed
    show "I (clearData h' t)" if "I t" for t h'
    proof -
      have "N \<le> ref p" if mem: "p \<in> set (messageQueue (clearData h' t))" and hp: "handler p = Some h" for p
        using entries_clearData[OF mem] hp \<open>I t\<close> by (auto simp: I_def)
      then show ?thesis using \<open>I t\<close> by (simp add: I_def)
    qed
    show "I (logEvent (Dequeued p) (t\<lparr>messageQueue := rest\<rparr>)) \<and>
        (\<forall>h' m. handler p = Some h' \<longrightarrow> msg p = Some m \<longrightarrow> True)"
      if "I t" "messageQueue t = p # rest" for t p rest
      using that by (auto simp: I_def logEvent_def)
    show "I s" using none by (force simp: I_def N_def noneQueuedFor_def)
  qed (auto simp: I_def addLast_def)
  then show ?thesis by (simp add: I_def N_def)
qed

lemma tick_cases:
  assumes "tick P n s = Some (r, s')"
  shows "(messageQueue s' = messageQueue s \<and> log s' = log s) \<or>
     (\<exists>t. messageQueue t = messageQueue s \<and> log t = log s \<and> nextRef t = nextRef s \<and>
        pending t = None \<and> run P n RunLoop t = Some (r, s'))"
proof (cases "microtasks s")
  case Nil
  then show ?thesis using assms by (simp add: tick_def)
next
  case (Cons k ks)
  let ?s1 = "s\<lparr>microtasks := ks\<rparr>"
  have frame: "messageQueue (cleanupDirtySet ?s1) = messageQueue s" "log (cleanupDirtySet ?s1) = log s"
    by (simp_all add: cleanupDirtySet_def fold_cleanupHooks_frame)
  show ?thesis
  proof (cases "\<not> rejected k \<and> job k = RunMessageLoop")
    case False
    then have "s' = ?s1 \<or> s' = cleanupDirtySet ?s1"
      using assms Cons by (auto simp: tick_def Let_def split: if_splits job.splits)
    then show ?thesis using frame by auto
  next
    case True
    then have "run P n RunLoop ?s1 = Some (r, s')" using assms Cons by (simp add: tick_def Let_def)
    then have "run P n RunLoop (?s1\<lparr>pending := None\<rparr>) = Some (r, s')"
      using runLoop_clears_pending by simp
    then show ?thesis by (intro disjI2 exI[of _ "?s1\<lparr>pending := None\<rparr>"]) simp
  qed
qed

lemma nothing_delivered_tick:
  assumes quiet: "\<forall>m. Send h m \<notin> userCalls P \<and> Post h m \<notin> userCalls P"
    and none: "noneQueuedFor h s"
    and run: "tick P n s = Some (r, s')"
  shows "noneQueuedFor h s' \<and> filter (concerns h) (log s') = filter (concerns h) (log s)"
  using tick_cases[OF run]
proof (elim disjE exE conjE)
  fix t assume t: "messageQueue t = messageQueue s" "log t = log s" "pending t = None"
    and loop: "run P n RunLoop t = Some (r, s')"
  have "noneQueuedFor h t" using none t by (simp add: noneQueuedFor_def)
  from nothing_delivered[OF quiet this loop] show ?thesis using t by simp
qed (use none in \<open>simp add: noneQueuedFor_def\<close>)

lemma stale_not_dequeued_tick:
  assumes none: "noneQueuedFor h s"
    and run: "tick P n s = Some (r, s')"
  shows "filter (stale h (nextRef s)) (log s') = filter (stale h (nextRef s)) (log s)"
  using tick_cases[OF run]
proof (elim disjE exE conjE)
  fix t assume t: "messageQueue t = messageQueue s" "log t = log s" "nextRef t = nextRef s"
      "pending t = None"
    and loop: "run P n RunLoop t = Some (r, s')"
  have "noneQueuedFor h t" using none t by (simp add: noneQueuedFor_def)
  from stale_not_dequeued[OF this loop] show ?thesis using t by simp
qed simp

text \<open>
  C5: after \<^verbatim>\<open>clearData h\<close> the queue has the same entries in the same order (none is
  removed); every entry that belonged to \<open>h\<close> has both fields null and every other
  entry is unchanged; every slot of the hook list of \<open>h\<close> is a tombstone; no entry
  names \<open>h\<close>. From a state where no entry names \<open>h\<close>, a run of the loop (from the
  microtask or from \<^verbatim>\<open>flush\<close>) by user code that neither sends nor posts to \<open>h\<close>
  adds no hook call and no \<^verbatim>\<open>processMessage\<close> call for \<open>h\<close>; and whatever the user
  code does, no entry allocated before the run is dequeued with \<open>h\<close> as its handler.
  In the loop, an entry with a null field is dropped and the loop goes on with the
  next one.
\<close>

theorem clearData_cancels_queued_messages:
  "map ref (messageQueue (clearData h s)) = map ref (messageQueue s) \<and>
   (\<forall>i < length (messageQueue s).
      (handler (messageQueue s ! i) = Some h \<longrightarrow>
         handler (messageQueue (clearData h s) ! i) = None \<and> msg (messageQueue (clearData h s) ! i) = None) \<and>
      (handler (messageQueue s ! i) \<noteq> Some h \<longrightarrow>
         messageQueue (clearData h s) ! i = messageQueue s ! i)) \<and>
   hooksOf (clearData h s) h = replicate (length (hooksOf s h)) None \<and>
   noneQueuedFor h (clearData h s) \<and>
   ((\<forall>m. Send h m \<notin> userCalls P \<and> Post h m \<notin> userCalls P) \<and> noneQueuedFor h t \<and>
    (tick P n t = Some (r, t') \<or> flush P n t = Some (r, t')) \<longrightarrow>
      noneQueuedFor h t' \<and> filter (concerns h) (log t') = filter (concerns h) (log t)) \<and>
   (noneQueuedFor h t \<and> (tick P n t = Some (r, t') \<or> flush P n t = Some (r, t')) \<longrightarrow>
      filter (stale h (nextRef t)) (log t') = filter (stale h (nextRef t)) (log t)) \<and>
   (messageQueue t = p # rest \<and> (handler p = None \<or> msg p = None) \<and> ref p \<noteq> sentinel \<longrightarrow>
      run P (Suc n) (MessageLoop sentinel) t =
        run P n (MessageLoop sentinel) (logEvent (Dequeued p) (t\<lparr>messageQueue := rest\<rparr>)))"
proof -
  have q: "messageQueue (clearData h s) = map (clearPosted h) (messageQueue s)"
    by (simp add: clearData_def scheduleCleanup_def schedule_def Let_def split: option.splits)
  have a: "map ref (messageQueue (clearData h s)) = map ref (messageQueue s)" by simp
  have b: "\<forall>i < length (messageQueue s).
      (handler (messageQueue s ! i) = Some h \<longrightarrow>
         handler (messageQueue (clearData h s) ! i) = None \<and> msg (messageQueue (clearData h s) ! i) = None) \<and>
      (handler (messageQueue s ! i) \<noteq> Some h \<longrightarrow>
         messageQueue (clearData h s) ! i = messageQueue s ! i)"
    by (simp add: q clearPosted_def)
  have c: "hooksOf (clearData h s) h = replicate (length (hooksOf s h)) None"
    by (simp add: hooksOf_clearData)
  have d: "noneQueuedFor h (clearData h s)"
    using handlers_clearData[of h s] by (auto simp: noneQueuedFor_def)
  have e: "noneQueuedFor h t' \<and> filter (concerns h) (log t') = filter (concerns h) (log t)"
    if "\<forall>m. Send h m \<notin> userCalls P \<and> Post h m \<notin> userCalls P" "noneQueuedFor h t"
      "tick P n t = Some (r, t') \<or> flush P n t = Some (r, t')"
    using that nothing_delivered_tick[of h P t n r t'] nothing_delivered[of h P t n FlushNow r t']
    by auto
  have g: "filter (stale h (nextRef t)) (log t') = filter (stale h (nextRef t)) (log t)"
    if "noneQueuedFor h t" "tick P n t = Some (r, t') \<or> flush P n t = Some (r, t')"
    using that stale_not_dequeued_tick[of h t P n r t'] stale_not_dequeued[of h t P n FlushNow r t']
    by auto
  have f: "run P (Suc n) (MessageLoop sentinel) t =
        run P n (MessageLoop sentinel) (logEvent (Dequeued p) (t\<lparr>messageQueue := rest\<rparr>))"
    if "messageQueue t = p # rest" "handler p = None \<or> msg p = None" "ref p \<noteq> sentinel"
    using that by (auto simp: Let_def split: option.splits)
  show ?thesis
  proof (intro conjI)
    show "(\<forall>m. Send h m \<notin> userCalls P \<and> Post h m \<notin> userCalls P) \<and> noneQueuedFor h t \<and>
      (tick P n t = Some (r, t') \<or> flush P n t = Some (r, t')) \<longrightarrow>
      noneQueuedFor h t' \<and> filter (concerns h) (log t') = filter (concerns h) (log t)"
      using e by (intro impI) (elim conjE)
    show "noneQueuedFor h t \<and> (tick P n t = Some (r, t') \<or> flush P n t = Some (r, t')) \<longrightarrow>
      filter (stale h (nextRef t)) (log t') = filter (stale h (nextRef t)) (log t)"
      using g by (intro impI) (elim conjE)
    show "messageQueue t = p # rest \<and> (handler p = None \<or> msg p = None) \<and> ref p \<noteq> sentinel \<longrightarrow>
      run P (Suc n) (MessageLoop sentinel) t =
        run P n (MessageLoop sentinel) (logEvent (Dequeued p) (t\<lparr>messageQueue := rest\<rparr>))"
      using f by (intro impI) (elim conjE)
  qed (rule a b c d)+
qed

theorem clearData_cancels_queued_messages_witness:
  "messageQueue cleared = [\<lparr>ref = 0, handler = None, msg = None\<rparr>] \<and>
   (\<exists>s'. tick guardedCode 6 cleared = Some (Inr True, s') \<and> filter (concerns 3) (log s') = [] \<and>
      noneQueuedFor 3 s')"
proof -
  have uc: "\<forall>m. Send 3 m \<notin> userCalls guardedCode \<and> Post 3 m \<notin> userCalls guardedCode"
    by (auto simp: userCalls_def guardedCode_def hookBody_def quiet_def split: hook.splits)
  have q0: "messageQueue onePosted = [\<lparr>ref = 0, handler = Some 3, msg = Some 0\<rparr>]"
    by (simp add: onePosted_eq)
  from clearData_cancels_queued_messages[of 3 onePosted guardedCode cleared 6]
  have nq: "noneQueuedFor 3 cleared"
    and entry: "\<forall>i < length (messageQueue onePosted).
      (handler (messageQueue onePosted ! i) = Some 3 \<longrightarrow>
         handler (messageQueue cleared ! i) = None \<and> msg (messageQueue cleared ! i) = None)"
    and refs: "map ref (messageQueue cleared) = map ref (messageQueue onePosted)"
    and later: "\<And>r t'. tick guardedCode 6 cleared = Some (r, t') \<Longrightarrow>
      noneQueuedFor 3 t' \<and> filter (concerns 3) (log t') = filter (concerns 3) (log cleared)"
    using uc unfolding cleared_def by blast+
  have lg: "log cleared = []" by (simp add: cleared_def onePosted_eq initial_def)
  obtain e where e: "messageQueue cleared = [e]" using refs q0 by auto
  then have "ref e = 0" "handler e = None" "msg e = None" using entry refs q0 by auto
  then have qc: "messageQueue cleared = [\<lparr>ref = 0, handler = None, msg = None\<rparr>]"
    using e by (cases e) simp
  obtain s' where tk: "tick guardedCode 6 cleared = Some (Inr True, s')"
    by (simp add: cleared_def onePosted_eq initial_def tick_def eval_nat_numeral Let_def
        addLast_def logEvent_def clearData_def clearPosted_def plainMsg_def plainMessages_def)
  from later[OF tk] show ?thesis using qc tk lg by (intro conjI exI[of _ s']) simp_all
qed


end
